theory Spec2Isabelle
  imports Main
begin

section \<open>The task queue of lib/queue.js\<close>

text \<open>
  A \<open>Queue\<close> holds an ordered list of task records and a cursor. \<open>run\<close> hands the task at
  the cursor to a runner together with a fresh event emitter (the promise); the runner
  answers later by emitting \<open>complete\<close> or \<open>failed\<close> on the promise, and the handlers the
  Queue registered there call \<open>_onTaskComplete\<close> (which calls \<open>next\<close>) or
  \<open>_onTaskFailed\<close>. A task of type \<open>fork\<close> is not handed to the runner: \<open>_fork\<close> creates one
  new Queue per key of its spec and calls the function stored under that key.

  The embedding follows the methods of \<open>Queue.prototype\<close> one by one. What the runner, the
  observers and the forked functions do is outside the file; each call into them is
  recorded, in order, in a trace of effects, and what they do to the Queue afterwards
  arrives as an input of the step function at the end of this section.
\<close>

subsection \<open>Values and objects\<close>

text \<open>
  A JavaScript value is \<open>undefined\<close>, a primitive (compared by value, immutable; \<open>null\<close>
  is one) or a reference to an object on the heap. The heap is a list of objects, the
  address of an object being its index.

  \<open>_fork\<close> asks two things of an object: whether it is \<open>instanceof Object\<close>, and, if so,
  what a call of its \<open>slice\<close> method does. An array is an instance of \<open>Object\<close> and its
  \<open>slice()\<close> is \<open>Array.prototype.slice\<close>. Any other object carries the answer to the
  first question (it is \<open>False\<close> for an object without prototype, as
  \<open>Object.create(null)\<close> makes it), the values stored in it, and what a call of
  \<open>slice()\<close> on it does: there is no such method (\<open>None\<close>), or the call returns an
  existing value, returns a newly allocated object, or throws.
\<close>

datatype jsval = Undefined | Prim string | Ref nat

datatype hobj = Arr "jsval list" | Obj bool "jsval list" "sliced option"
  and sliced = Yields jsval | Fresh hobj | Fails

text \<open>Reading \<open>xs[i]\<close>: \<open>undefined\<close> (here \<open>None\<close>) beyond the end.\<close>

definition at :: "'a list \<Rightarrow> nat \<Rightarrow> 'a option" where
  "at xs i = (if i < length xs then Some (xs ! i) else None)"

text \<open>
  A value stored in a fork spec is called with \<open>.call(q, childWorker)\<close>. The model keeps
  its identity and whether that call returns (\<open>True\<close>) or throws (\<open>False\<close>: the function
  throws, or the value is not callable).
\<close>

datatype cont = Cont nat bool

fun returns :: "cont \<Rightarrow> bool" where
  "returns (Cont _ b) = b"

text \<open>
  The spec of a task is opaque to the Queue, except under the type \<open>fork\<close>, where it is
  a hash from queue names to functions; \<open>Forkspec\<close> lists its entries in the order of
  \<open>Object.keys\<close>.
\<close>

datatype spec = Opaque jsval | Forkspec "(string \<times> cont) list"

datatype task_record = TaskRecord (ttype: string) (tspec: spec)

text \<open>The two fields of the runner that the Queue reads: \<open>_state\<close> and \<open>_type\<close>.\<close>

record runner =
  r_state :: jsval
  r_type :: jsval

text \<open>
  \<open>Buildy.factory(runnerType, runnerState)\<close> lives in buildy.js; a child worker is
  represented by the two arguments it is built from.
\<close>

datatype worker = Worker jsval jsval

subsection \<open>The Queue object and what it does to the outside\<close>

text \<open>
  The fields set by the constructor, and \<open>_runner\<close> and \<open>_promise\<close>, which are undefined
  (\<open>None\<close>) until \<open>run\<close> assigns them. A promise is identified by its number in the order
  of creation.
\<close>

record Queue =
  q_name :: string
  q_queue :: "task_record list"
  q_queuePosition :: nat
  q_queueStack :: "jsval list"
  q_options :: jsval
  q_runner :: "runner option"
  q_promise :: "nat option"

datatype event =
    TaskStarted string "jsval list" nat string
  | TaskComplete string "task_record option" jsval
  | TaskFailed string "task_record option" jsval
  | QueueComplete string

datatype effect =
    Emit event
  | Exec string spec nat
  | Call cont Queue worker

text \<open>
  The world of one Queue: the object itself, the heap, the number of promises it has
  created, the value of \<open>_name\<close> on the global object (the \<open>this\<close> of a function called
  without a receiver in this non-strict file; \<open>Undefined\<close> unless the host program
  defines such a global), and the trace.

  \<open>object_keys\<close> is the host's \<open>Object.keys\<close> on a fork spec that is given as a plain
  value and not as a hash: the keys it returns, each with what is stored under it, or
  \<open>None\<close> when it throws. It is a parameter of the model, since engines differ (an
  ES5 engine throws on every primitive, a later one on \<open>undefined\<close> and \<open>null\<close> only).
\<close>

record world =
  self :: Queue
  heap :: "hobj list"
  promises :: nat
  global_name :: jsval
  object_keys :: "jsval \<Rightarrow> (string \<times> cont) list option"
  trace :: "effect list"

datatype error = TypeError | Error string | Thrown

text \<open>
  A method returns or throws; what it wrote before throwing stays written, so both
  outcomes carry the world.
\<close>

datatype outcome = Returned world | Raised error world

fun state_of :: "outcome \<Rightarrow> world" where
  "state_of (Returned w) = w"
| "state_of (Raised e w) = w"

fun raised :: "outcome \<Rightarrow> error option" where
  "raised (Returned w) = None"
| "raised (Raised e w) = Some e"

subsection \<open>The methods\<close>

text \<open>\<open>function Queue(name, options)\<close>.\<close>

definition Queue_new :: "string \<Rightarrow> jsval \<Rightarrow> Queue" where
  "Queue_new nm opts =
     \<lparr>q_name = nm, q_queue = [], q_queuePosition = 0, q_queueStack = [],
      q_options = opts, q_runner = None, q_promise = None\<rparr>"

text \<open>\<open>Queue.prototype.task\<close>: push \<open>{type, spec}\<close>.\<close>

definition Queue_task :: "Queue \<Rightarrow> string \<Rightarrow> spec \<Rightarrow> Queue" where
  "Queue_task q ty sp = q\<lparr>q_queue := q_queue q @ [TaskRecord ty sp]\<rparr>"

text \<open>\<open>this.emit(name, payload)\<close>; observers are assumed to return.\<close>

definition emit :: "world \<Rightarrow> event \<Rightarrow> world" where
  "emit w e = w\<lparr>trace := trace w @ [Emit e]\<rparr>"

text \<open>
  The first statement of \<open>_fork\<close>:
  \<^verbatim>\<open>runnerState = (this._runner._state instanceof Object) ?
        this._runner._state.slice() : this._runner._state\<close>
  A value that is not an instance of \<open>Object\<close> (\<open>undefined\<close>, a primitive, an object
  without prototype) is taken as it is. On an array, \<open>slice\<close> allocates a new array with
  the same elements. On another instance of \<open>Object\<close> the call of \<open>slice\<close> does what the
  object says; without such a method it throws a TypeError. (An address beyond the heap
  is the value of no JavaScript expression; the TypeError there is a convention.)
\<close>

definition runnerState :: "world \<Rightarrow> runner \<Rightarrow> error + (world \<times> jsval)" where
  "runnerState w r =
     (case r_state r of
        Ref a \<Rightarrow>
          (case at (heap w) a of
             Some (Arr vs) \<Rightarrow> Inr (w\<lparr>heap := heap w @ [Arr vs]\<rparr>, Ref (length (heap w)))
           | Some (Obj inst vs sl) \<Rightarrow>
               if inst then
                 (case sl of
                    None \<Rightarrow> Inl TypeError
                  | Some (Yields v) \<Rightarrow> Inr (w, v)
                  | Some (Fresh ob) \<Rightarrow> Inr (w\<lparr>heap := heap w @ [ob]\<rparr>, Ref (length (heap w)))
                  | Some Fails \<Rightarrow> Inl Thrown)
               else Inr (w, Ref a)
           | None \<Rightarrow> Inl TypeError)
      | v \<Rightarrow> Inr (w, v))"

text \<open>
  The loop \<open>Object.keys(forkspec).forEach(function eachFork(qName) {...})\<close>. The callback
  is called without a receiver, so its \<open>this._name\<close> reads the global object; the
  Queue's own fields are reached through \<open>self\<close> (\<open>self._options\<close>).
\<close>

fun eachFork :: "jsval \<Rightarrow> jsval \<Rightarrow> world \<Rightarrow> (string \<times> cont) list \<Rightarrow> outcome" where
  "eachFork runnerType st w [] = Returned w"
| "eachFork runnerType st w ((qName, f) # rest) =
     (let q = Queue_new qName (q_options (self w));
          childWorker = Worker runnerType st;
          q' = q\<lparr>q_queueStack := q_queueStack q @ [global_name w]\<rparr>;
          w' = w\<lparr>trace := trace w @ [Call f q' childWorker]\<rparr>
      in if returns f then eachFork runnerType st w' rest else Raised Thrown w')"

text \<open>
  \<open>Queue.prototype._fork\<close>. Reading \<open>this._runner._state\<close> throws a TypeError when
  \<open>_runner\<close> is undefined. The entries of a spec that is a hash are those of \<open>Forkspec\<close>;
  for a spec given as a plain value they are what the host's \<open>Object.keys\<close> makes of it,
  and \<open>_fork\<close> throws when \<open>Object.keys\<close> does.
\<close>

definition Queue_fork :: "world \<Rightarrow> spec \<Rightarrow> outcome" where
  "Queue_fork w forkspec =
     (case q_runner (self w) of
        None \<Rightarrow> Raised TypeError w
      | Some r \<Rightarrow>
          (case runnerState w r of
             Inl e \<Rightarrow> Raised e w
           | Inr (w1, st) \<Rightarrow>
               (case forkspec of
                  Forkspec kvs \<Rightarrow> eachFork (r_type r) st w1 kvs
                | Opaque v \<Rightarrow>
                    (case object_keys w1 v of
                       None \<Rightarrow> Raised TypeError w1
                     | Some kvs \<Rightarrow> eachFork (r_type r) st w1 kvs))))"

text \<open>
  \<open>Queue.prototype.run\<close>. \<open>t\<close> is undefined when the cursor is past the end, and then
  \<open>t.type\<close> throws a TypeError before anything else happens. On the other path the
  promise is created, the runner bound, the test \<open>t === undefined\<close> made, \<open>taskStarted\<close>
  emitted and \<open>exec\<close> called, in this order; \<open>exec\<close> on an undefined runner throws.
\<close>

definition Queue_run :: "world \<Rightarrow> runner option \<Rightarrow> outcome" where
  "Queue_run w rnr =
     (let t = at (q_queue (self w)) (q_queuePosition (self w)) in
      case t of
        None \<Rightarrow> Raised TypeError w
      | Some tk \<Rightarrow>
          if ttype tk = ''fork'' then Queue_fork w (tspec tk)
          else
            let w1 = w\<lparr>self := (self w)\<lparr>q_promise := Some (promises w), q_runner := rnr\<rparr>,
                       promises := Suc (promises w)\<rparr>
            in if t = None then Raised (Error ''Task undefined is undefined'') w1
               else
                 let w2 = emit w1 (TaskStarted (q_name (self w1)) (q_queueStack (self w1))
                                     (q_queuePosition (self w1)) (ttype tk))
                 in case q_runner (self w2) of
                      None \<Rightarrow> Raised TypeError w2
                    | Some r \<Rightarrow>
                        Returned (w2\<lparr>trace := trace w2 @
                                     [Exec (ttype tk) (tspec tk) (promises w)]\<rparr>))"

text \<open>\<open>Queue.prototype.next\<close>.\<close>

definition Queue_next :: "world \<Rightarrow> outcome" where
  "Queue_next w =
     (let w1 = w\<lparr>self := (self w)\<lparr>q_queuePosition := Suc (q_queuePosition (self w))\<rparr>\<rparr>
      in if q_queuePosition (self w1) < length (q_queue (self w1))
         then Queue_run w1 (q_runner (self w1))
         else Returned (emit w1 (QueueComplete (q_name (self w1)))))"

text \<open>\<open>Queue.prototype._onTaskComplete\<close> and \<open>Queue.prototype._onTaskFailed\<close>.\<close>

definition Queue_onTaskComplete :: "world \<Rightarrow> jsval \<Rightarrow> outcome" where
  "Queue_onTaskComplete w result =
     Queue_next (emit w (TaskComplete (q_name (self w))
                           (at (q_queue (self w)) (q_queuePosition (self w))) result))"

definition Queue_onTaskFailed :: "world \<Rightarrow> jsval \<Rightarrow> outcome" where
  "Queue_onTaskFailed w result =
     Returned (emit w (TaskFailed (q_name (self w))
                         (at (q_queue (self w)) (q_queuePosition (self w))) result))"

subsection \<open>What reaches the Queue\<close>

text \<open>
  The calls of the public methods, the two signals, and a write of the runner to its
  own fields. A signal names the promise it is emitted on. Every promise the Queue
  created carries the same two handlers, which call \<open>_onTaskComplete\<close> and
  \<open>_onTaskFailed\<close> on the Queue; a promise it never created has none.

  A runner may emit from inside \<open>exec\<close>. Then the handler runs nested in \<open>run\<close>, and as
  \<open>run\<close>, \<open>next\<close> and \<open>_onTaskComplete\<close> do nothing after their last call, the writes and
  the effects occur in the order in which the step function produces them when the
  signal follows the call.
\<close>

datatype input =
    CallTask string spec
  | CallRun "runner option"
  | CallNext
  | Complete nat jsval
  | Failed nat jsval
  | RunnerSet jsval jsval

definition step :: "world \<Rightarrow> input \<Rightarrow> outcome" where
  "step w i =
     (case i of
        CallTask ty sp \<Rightarrow> Returned (w\<lparr>self := Queue_task (self w) ty sp\<rparr>)
      | CallRun rnr \<Rightarrow> Queue_run w rnr
      | CallNext \<Rightarrow> Queue_next w
      | Complete p result \<Rightarrow>
          if p < promises w then Queue_onTaskComplete w result else Returned w
      | Failed p result \<Rightarrow>
          if p < promises w then Queue_onTaskFailed w result else Returned w
      | RunnerSet st ty \<Rightarrow>
          Returned (w\<lparr>self := (self w)\<lparr>q_runner :=
             map_option (\<lambda>r. r\<lparr>r_state := st, r_type := ty\<rparr>) (q_runner (self w))\<rparr>\<rparr>))"

text \<open>The world after a list of inputs, whether or not one of them threw.\<close>

fun after :: "world \<Rightarrow> input list \<Rightarrow> world" where
  "after w [] = w"
| "after w (i # is) = after (state_of (step w i)) is"

text \<open>A Queue built by \<open>new Queue(name, options)\<close> and one \<open>task\<close> call per record.\<close>

definition built :: "string \<Rightarrow> jsval \<Rightarrow> task_record list \<Rightarrow> Queue" where
  "built nm opts ts = foldl (\<lambda>q t. Queue_task q (ttype t) (tspec t)) (Queue_new nm opts) ts"

definition start ::
  "string \<Rightarrow> jsval \<Rightarrow> task_record list \<Rightarrow> hobj list \<Rightarrow> jsval \<Rightarrow>
     (jsval \<Rightarrow> (string \<times> cont) list option) \<Rightarrow> world" where
  "start nm opts ts h g ks =
     \<lparr>self = built nm opts ts, heap = h, promises = 0, global_name = g, object_keys = ks,
      trace = []\<rparr>"

subsection \<open>Reading the trace\<close>

fun isTaskStarted :: "effect \<Rightarrow> bool" where
  "isTaskStarted (Emit (TaskStarted n st p ty)) = True"
| "isTaskStarted _ = False"

fun isTaskComplete :: "effect \<Rightarrow> bool" where
  "isTaskComplete (Emit (TaskComplete n t r)) = True"
| "isTaskComplete _ = False"

fun isQueueComplete :: "effect \<Rightarrow> bool" where
  "isQueueComplete (Emit (QueueComplete n)) = True"
| "isQueueComplete _ = False"

fun isExec :: "effect \<Rightarrow> bool" where
  "isExec (Exec ty sp p) = True"
| "isExec _ = False"

text \<open>The Queues created by \<open>_fork\<close>, and the snapshots handed to \<open>Buildy.factory\<close>.\<close>

fun children :: "effect list \<Rightarrow> Queue list" where
  "children [] = []"
| "children (Call f q wk # es) = q # children es"
| "children (e # es) = children es"

fun snapshots :: "effect list \<Rightarrow> jsval list" where
  "snapshots [] = []"
| "snapshots (Call f q (Worker ty st) # es) = st # snapshots es"
| "snapshots (e # es) = snapshots es"

text \<open>The functions called by \<open>_fork\<close>, in the order of the calls.\<close>

fun called :: "effect list \<Rightarrow> cont list" where
  "called [] = []"
| "called (Call f q wk # es) = f # called es"
| "called (e # es) = called es"

text \<open>What a step added to the trace.\<close>

definition added :: "world \<Rightarrow> world \<Rightarrow> effect list" where
  "added w w' = drop (length (trace w)) (trace w')"

text \<open>How often \<open>queueComplete\<close> was emitted.\<close>

definition completions :: "world \<Rightarrow> nat" where
  "completions w = length (filter isQueueComplete (trace w))"

text \<open>
  The entries of a fork spec that \<open>forEach\<close> reaches: all of them, up to and including
  the first whose call throws.
\<close>

fun attempted :: "(string \<times> cont) list \<Rightarrow> (string \<times> cont) list" where
  "attempted [] = []"
| "attempted ((qName, f) # rest) = (qName, f) # (if returns f then attempted rest else [])"

text \<open>The effect of one round of the loop: the call made for an entry of the fork spec.\<close>

definition forked :: "world \<Rightarrow> jsval \<Rightarrow> jsval \<Rightarrow> string \<times> cont \<Rightarrow> effect" where
  "forked w ty st kv =
     Call (snd kv) ((Queue_new (fst kv) (q_options (self w)))\<lparr>q_queueStack := [global_name w]\<rparr>)
       (Worker ty st)"

subsection \<open>The execution contract\<close>

text \<open>
  The Queue is waiting for a signal when the last thing it did was to call \<open>exec\<close>: each
  handler emits an event at once, so a trace that ends in \<open>Exec\<close> is that of a task
  dispatched and not yet answered. \<open>dispatched\<close> is the promise of that task.
\<close>

definition dispatched :: "world \<Rightarrow> nat option" where
  "dispatched w =
     (if trace w = [] then None
      else case last (trace w) of Exec ty sp p \<Rightarrow> Some p | _ \<Rightarrow> None)"

text \<open>
  An input obeys the contract when it is the first \<open>run\<close>, with a runner, of a Queue that
  has done nothing yet, a signal on the promise of the task in flight, or a write of
  the runner to its own fields. Appending tasks during a run and calling \<open>next\<close> from
  outside are not part of it.
\<close>

definition contract :: "world \<Rightarrow> input \<Rightarrow> bool" where
  "contract w i =
     (case i of
        CallTask ty sp \<Rightarrow> False
      | CallRun rnr \<Rightarrow> rnr \<noteq> None \<and> trace w = []
      | CallNext \<Rightarrow> False
      | Complete p result \<Rightarrow> dispatched w = Some p
      | Failed p result \<Rightarrow> dispatched w = Some p
      | RunnerSet st ty \<Rightarrow> True)"

fun lawful :: "world \<Rightarrow> input list \<Rightarrow> bool" where
  "lawful w [] = True"
| "lawful w (i # is) = (contract w i \<and> lawful (state_of (step w i)) is)"

text \<open>Inputs that cannot make the Queue go on: anything but \<open>run\<close>, \<open>next\<close> and a success signal.\<close>

fun resumes :: "input \<Rightarrow> bool" where
  "resumes (CallRun rnr) = True"
| "resumes CallNext = True"
| "resumes (Complete p result) = True"
| "resumes _ = False"

text \<open>
  What holds of a Queue driven within the contract: the cursor is within the tasks, it
  is at the end exactly when \<open>queueComplete\<close> has been emitted, which happens once, and
  a task in flight lies before the end and was given a promise of this Queue.
\<close>

definition queue_inv :: "world \<Rightarrow> bool" where
  "queue_inv w \<longleftrightarrow>
     q_queuePosition (self w) \<le> length (q_queue (self w)) \<and>
     (q_queuePosition (self w) < length (q_queue (self w)) \<longrightarrow> completions w = 0) \<and>
     (q_queuePosition (self w) = length (q_queue (self w)) \<longrightarrow> completions w = 1) \<and>
     (\<forall>p. dispatched w = Some p \<longrightarrow>
        p < promises w \<and> q_queuePosition (self w) < length (q_queue (self w)))"

text \<open>
  The run in which every task succeeds: the call of \<open>run\<close>, then for each task in turn a
  \<open>complete\<close> signal on its promise (the \<open>k\<close>-th dispatch creates promise \<open>k\<close>) with the
  result \<open>rs k\<close>. \<open>dispatch_of\<close> and \<open>round_of\<close> are the effects expected of task \<open>k\<close>: its
  start and dispatch, then its completion.
\<close>

definition successes :: "(nat \<Rightarrow> jsval) \<Rightarrow> nat \<Rightarrow> input list" where
  "successes rs j = map (\<lambda>k. Complete k (rs k)) [0..<j]"

definition dispatch_of :: "string \<Rightarrow> task_record list \<Rightarrow> nat \<Rightarrow> effect list" where
  "dispatch_of nm ts k =
     [Emit (TaskStarted nm [] k (ttype (ts ! k))), Exec (ttype (ts ! k)) (tspec (ts ! k)) k]"

definition round_of :: "string \<Rightarrow> task_record list \<Rightarrow> (nat \<Rightarrow> jsval) \<Rightarrow> nat \<Rightarrow> effect list" where
  "round_of nm ts rs k = dispatch_of nm ts k @ [Emit (TaskComplete nm (Some (ts ! k)) (rs k))]"

subsection \<open>Shared identity\<close>

text \<open>
  The addresses reachable from a value, through at most \<open>n\<close> objects. Two values share
  mutable identity in a heap when some object is reachable from both.
\<close>

fun reach :: "nat \<Rightarrow> hobj list \<Rightarrow> jsval \<Rightarrow> nat list" where
  "reach n h Undefined = []"
| "reach n h (Prim s) = []"
| "reach 0 h (Ref a) = [a]"
| "reach (Suc n) h (Ref a) =
     a # (case at h a of
            Some (Arr vs) \<Rightarrow> concat (map (reach n h) vs)
          | Some (Obj inst vs sl) \<Rightarrow> concat (map (reach n h) vs)
          | None \<Rightarrow> [])"

definition shares :: "hobj list \<Rightarrow> jsval \<Rightarrow> jsval \<Rightarrow> bool" where
  "shares h u v = (\<exists>a \<in> set (reach (length h) h u). a \<in> set (reach (length h) h v))"


subsection \<open>Example queues\<close>

text \<open>
  None of the examples has a fork whose spec is a plain value; their host is one whose
  \<open>Object.keys\<close> throws on every such value.
\<close>

definition no_keys :: "jsval \<Rightarrow> (string \<times> cont) list option" where
  "no_keys v = None"

text \<open>
  The queue \<open>build\<close> of three ordinary tasks, and a runner whose state is a primitive.
\<close>

definition build :: world where
  "build = start ''build'' Undefined
     [TaskRecord ''files'' (Opaque (Prim ''*.js'')),
      TaskRecord ''concat'' (Opaque Undefined),
      TaskRecord ''write'' (Opaque (Prim ''out.js''))] [] Undefined no_keys"

text \<open>The results \<open>R1\<close>, \<open>R2\<close>, \<open>R3\<close> of its three tasks.\<close>

definition build_results :: "nat \<Rightarrow> jsval" where
  "build_results k = [Prim ''R1'', Prim ''R2'', Prim ''R3''] ! k"

definition plain_runner :: runner where
  "plain_runner = \<lparr>r_state = Prim ''text'', r_type = Prim ''concat''\<rparr>"

text \<open>A queue whose only task is a fork, as \<open>new Queue('build').task('fork', {...})\<close> makes it.\<close>

definition fork_only :: world where
  "fork_only = start ''build'' Undefined
     [TaskRecord ''fork'' (Forkspec [(''debug'', Cont 1 True), (''min'', Cont 2 True)])]
     [] Undefined no_keys"

text \<open>
  A queue \<open>debug\<close> that was itself created by a fork, so that its \<open>_queueStack\<close> has the
  one entry pushed there; the function it was handed to has appended a \<open>write\<close> task and
  a fork. Its runner's state is an array (at address 0) whose only element is another
  array (at address 1).
\<close>

definition debug_branch :: world where
  "debug_branch =
     \<lparr>self = (built ''debug'' Undefined
         [TaskRecord ''write'' (Opaque (Prim ''out.js'')),
          TaskRecord ''fork'' (Forkspec [(''min'', Cont 1 True), (''lint'', Cont 2 True)])])
         \<lparr>q_queueStack := [Undefined]\<rparr>,
      heap = [Arr [Ref 1], Arr [Prim ''a.js'']],
      promises = 0, global_name = Undefined, object_keys = no_keys, trace = []\<rparr>"

definition nested_runner :: runner where
  "nested_runner = \<lparr>r_state = Ref 0, r_type = Prim ''write''\<rparr>"

text \<open>
  The same queue with its runner bound and its cursor on the fork, as \<open>next\<close> leaves it
  when it calls \<open>run\<close>.
\<close>

definition debug_at_fork :: world where
  "debug_at_fork =
     debug_branch\<lparr>self := (self debug_branch)
       \<lparr>q_queuePosition := 1, q_runner := Some nested_runner, q_promise := Some 0\<rparr>,
       promises := 1\<rparr>"

text \<open>
  The same queue at its fork with two other runners: the state of the first is an
  object without prototype (at address 2) that holds the inner array, the state of the
  second a plain object without \<open>slice\<close> (at address 3).
\<close>

definition bare_runner :: runner where
  "bare_runner = \<lparr>r_state = Ref 2, r_type = Prim ''write''\<rparr>"

definition bare_at_fork :: world where
  "bare_at_fork =
     debug_at_fork\<lparr>self := (self debug_at_fork)\<lparr>q_runner := Some bare_runner\<rparr>,
       heap := [Arr [Ref 1], Arr [Prim ''a.js''], Obj False [Ref 1] None, Obj True [] None]\<rparr>"

definition object_runner :: runner where
  "object_runner = \<lparr>r_state = Ref 3, r_type = Prim ''write''\<rparr>"

definition object_at_fork :: world where
  "object_at_fork =
     bare_at_fork\<lparr>self := (self bare_at_fork)\<lparr>q_runner := Some object_runner\<rparr>\<rparr>"

section \<open>Properties\<close>

lemma at_Some: "at xs i = Some x \<longleftrightarrow> i < length xs \<and> xs ! i = x"
  by (auto simp: at_def)

lemma built_fields:
  "q_queue (built nm opts ts) = ts"
  "q_name (built nm opts ts) = nm"
  "q_queuePosition (built nm opts ts) = 0"
  "q_queueStack (built nm opts ts) = []"
  "q_options (built nm opts ts) = opts"
  "q_runner (built nm opts ts) = None"
  "q_promise (built nm opts ts) = None"
proof -
  have "\<And>q. foldl (\<lambda>q t. Queue_task q (ttype t) (tspec t)) q ts =
            q\<lparr>q_queue := q_queue q @ ts\<rparr>"
    by (induction ts) (simp_all add: Queue_task_def)
  then have "built nm opts ts = (Queue_new nm opts)\<lparr>q_queue := ts\<rparr>"
    by (simp add: built_def Queue_new_def)
  then show
    "q_queue (built nm opts ts) = ts"
    "q_name (built nm opts ts) = nm"
    "q_queuePosition (built nm opts ts) = 0"
    "q_queueStack (built nm opts ts) = []"
    "q_options (built nm opts ts) = opts"
    "q_runner (built nm opts ts) = None"
    "q_promise (built nm opts ts) = None"
    by (simp_all add: Queue_new_def)
qed

subsection \<open>The shape of each method's result\<close>

lemma eachFork_state:
  "state_of (eachFork ty st w kvs) = w\<lparr>trace := trace w @ map (forked w ty st) (attempted kvs)\<rparr>"
proof (induction kvs arbitrary: w)
  case Nil
  then show ?case by simp
next
  case (Cons kv kvs)
  obtain k f where kv: "kv = (k, f)" by (cases kv)
  show ?case
    by (simp add: kv Let_def Cons.IH Queue_new_def forked_def)
qed

lemma eachFork_raised:
  "raised (eachFork ty st w kvs) = (if list_all (\<lambda>(k, f). returns f) kvs then None else Some Thrown)"
proof (induction kvs arbitrary: w)
  case Nil
  then show ?case by simp
next
  case (Cons kv kvs)
  obtain k f where kv: "kv = (k, f)" by (cases kv)
  show ?case
    by (simp add: kv Let_def Cons.IH)
qed

lemma outcome_eq: "raised x = raised y \<Longrightarrow> state_of x = state_of y \<Longrightarrow> x = y"
  by (cases x; cases y) auto

lemma Queue_fork_shape:
  "\<exists>h ty st kvs.
     state_of (Queue_fork w sp) = w\<lparr>heap := h, trace := trace w @ map (forked w ty st) kvs\<rparr>"
proof -
  have same: "\<exists>h' ty st kvs.
      w = w\<lparr>heap := h', trace := trace w @ map (forked w ty st) kvs\<rparr>"
    by (intro exI [of _ "heap w"] exI [of _ Undefined] exI [of _ "[]::(string \<times> cont) list"])
      simp
  have upd: "\<exists>h' ty st kvs.
      w\<lparr>heap := h\<rparr> = w\<lparr>heap := h', trace := trace w @ map (forked w ty st) kvs\<rparr>" for h
    by (intro exI [of _ h] exI [of _ Undefined] exI [of _ "[]::(string \<times> cont) list"]) simp
  show ?thesis
  proof (cases "q_runner (self w)")
    case None
    then have eq: "state_of (Queue_fork w sp) = w"
      by (simp add: Queue_fork_def)
    show ?thesis unfolding eq by (rule same)
  next
    case (Some r)
    show ?thesis
    proof (cases "runnerState w r")
      case (Inl e)
      then have eq: "state_of (Queue_fork w sp) = w"
        by (simp add: Queue_fork_def Some)
      show ?thesis unfolding eq by (rule same)
    next
      case (Inr p)
      obtain w1 st where p: "p = (w1, st)" by (cases p)
      have "\<exists>h. w1 = w\<lparr>heap := h\<rparr>"
        using Inr p
        by (auto simp: runnerState_def
            split: jsval.splits option.splits hobj.splits sliced.splits if_splits
            intro: exI [of _ "heap w"])
      then obtain h where h: "w1 = w\<lparr>heap := h\<rparr>" ..
      show ?thesis
      proof (cases sp)
        case (Opaque v)
        show ?thesis
        proof (cases "object_keys w v")
          case None
          then have eq: "state_of (Queue_fork w sp) = w\<lparr>heap := h\<rparr>"
            using Opaque by (simp add: Queue_fork_def Some Inr p h)
          show ?thesis unfolding eq by (rule upd)
        next
          case (Some kvs)
          then have "state_of (Queue_fork w sp) =
              w\<lparr>heap := h, trace := trace w @ map (forked w (r_type r) st) (attempted kvs)\<rparr>"
            using Opaque \<open>q_runner (self w) = Some r\<close>
            by (simp add: Queue_fork_def Inr p h eachFork_state forked_def)
          then show ?thesis by blast
        qed
      next
        case (Forkspec kvs)
        then have "state_of (Queue_fork w sp) =
            w\<lparr>heap := h, trace := trace w @ map (forked w (r_type r) st) (attempted kvs)\<rparr>"
          by (simp add: Queue_fork_def Some Inr p h eachFork_state forked_def)
        then show ?thesis by blast
      qed
    qed
  qed
qed

lemma Queue_run_past: "at (q_queue (self w)) (q_queuePosition (self w)) = None \<Longrightarrow>
  Queue_run w rnr = Raised TypeError w"
  by (simp add: Queue_run_def)

lemma Queue_run_fork: "at (q_queue (self w)) (q_queuePosition (self w)) = Some t \<Longrightarrow>
  ttype t = ''fork'' \<Longrightarrow> Queue_run w rnr = Queue_fork w (tspec t)"
  by (simp add: Queue_run_def)

lemma Queue_run_unbound: "at (q_queue (self w)) (q_queuePosition (self w)) = Some t \<Longrightarrow>
  ttype t \<noteq> ''fork'' \<Longrightarrow> Queue_run w None =
   Raised TypeError (w\<lparr>self := (self w)\<lparr>q_promise := Some (promises w), q_runner := None\<rparr>,
       promises := Suc (promises w),
       trace := trace w @ [Emit (TaskStarted (q_name (self w)) (q_queueStack (self w))
                                     (q_queuePosition (self w)) (ttype t))]\<rparr>)"
  by (simp add: Queue_run_def emit_def Let_def)

lemma Queue_run_exec: "at (q_queue (self w)) (q_queuePosition (self w)) = Some t \<Longrightarrow>
  ttype t \<noteq> ''fork'' \<Longrightarrow> Queue_run w (Some r) =
   Returned (w\<lparr>self := (self w)\<lparr>q_promise := Some (promises w), q_runner := Some r\<rparr>,
       promises := Suc (promises w),
       trace := trace w @ [Emit (TaskStarted (q_name (self w)) (q_queueStack (self w))
                                     (q_queuePosition (self w)) (ttype t)),
                           Exec (ttype t) (tspec t) (promises w)]\<rparr>)"
  by (simp add: Queue_run_def emit_def Let_def)

lemma children_forked:
  "children (map (forked w ty st) kvs) =
     map (\<lambda>kv. (Queue_new (fst kv) (q_options (self w)))\<lparr>q_queueStack := [global_name w]\<rparr>) kvs"
  by (induction kvs) (simp_all add: forked_def)

lemma filter_forked:
  "filter isTaskStarted (map (forked w ty st) kvs) = []"
  "filter isTaskComplete (map (forked w ty st) kvs) = []"
  "filter isQueueComplete (map (forked w ty st) kvs) = []"
  "filter isExec (map (forked w ty st) kvs) = []"
  by (induction kvs) (simp_all add: forked_def)

text \<open>The four ways through run.\<close>

lemma Queue_run_cases [case_names past fork unbound exec]:
  obtains
    (past) "at (q_queue (self w)) (q_queuePosition (self w)) = None"
      "Queue_run w rnr = Raised TypeError w"
  | (fork) t h ty st kvs where "at (q_queue (self w)) (q_queuePosition (self w)) = Some t"
      "ttype t = ''fork''" "Queue_run w rnr = Queue_fork w (tspec t)"
      "state_of (Queue_run w rnr) = w\<lparr>heap := h, trace := trace w @ map (forked w ty st) kvs\<rparr>"
  | (unbound) t where "at (q_queue (self w)) (q_queuePosition (self w)) = Some t"
      "ttype t \<noteq> ''fork''" "rnr = None"
      "Queue_run w rnr =
         Raised TypeError (w\<lparr>self := (self w)\<lparr>q_promise := Some (promises w), q_runner := None\<rparr>,
           promises := Suc (promises w),
           trace := trace w @ [Emit (TaskStarted (q_name (self w)) (q_queueStack (self w))
                                     (q_queuePosition (self w)) (ttype t))]\<rparr>)"
  | (exec) t r where "at (q_queue (self w)) (q_queuePosition (self w)) = Some t"
      "ttype t \<noteq> ''fork''" "rnr = Some r"
      "Queue_run w rnr =
         Returned (w\<lparr>self := (self w)\<lparr>q_promise := Some (promises w), q_runner := Some r\<rparr>,
           promises := Suc (promises w),
           trace := trace w @ [Emit (TaskStarted (q_name (self w)) (q_queueStack (self w))
                                     (q_queuePosition (self w)) (ttype t)),
                               Exec (ttype t) (tspec t) (promises w)]\<rparr>)"
proof (cases "at (q_queue (self w)) (q_queuePosition (self w))")
  case None
  then show ?thesis using past Queue_run_past by blast
next
  case (Some t)
  show ?thesis
  proof (cases "ttype t = ''fork''")
    case True
    have eq: "Queue_run w rnr = Queue_fork w (tspec t)"
      using Some True by (rule Queue_run_fork)
    obtain h ty st kvs where
      "state_of (Queue_fork w (tspec t)) = w\<lparr>heap := h, trace := trace w @ map (forked w ty st) kvs\<rparr>"
      using Queue_fork_shape by blast
    then show ?thesis using fork [OF Some True eq] eq by simp
  next
    case False
    show ?thesis
    proof (cases rnr)
      case None
      show ?thesis using unbound [OF Some False None] Queue_run_unbound [OF Some False] None by simp
    next
      case (Some r)
      show ?thesis using exec [OF \<open>at (q_queue (self w)) (q_queuePosition (self w)) = Some t\<close> False Some]
          Queue_run_exec [OF \<open>at (q_queue (self w)) (q_queuePosition (self w)) = Some t\<close> False] Some by simp
    qed
  qed
qed

lemma Queue_run_keeps:
  "q_queuePosition (self (state_of (Queue_run w rnr))) = q_queuePosition (self w)"
  "q_queue (self (state_of (Queue_run w rnr))) = q_queue (self w)"
  "q_queueStack (self (state_of (Queue_run w rnr))) = q_queueStack (self w)"
  "q_name (self (state_of (Queue_run w rnr))) = q_name (self w)"
  "q_options (self (state_of (Queue_run w rnr))) = q_options (self w)"
  "global_name (state_of (Queue_run w rnr)) = global_name w"
  by (rule Queue_run_cases [of w rnr]; simp)+

lemma Queue_next_keeps:
  "q_queuePosition (self (state_of (Queue_next w))) = Suc (q_queuePosition (self w))"
  "q_queue (self (state_of (Queue_next w))) = q_queue (self w)"
  "q_queueStack (self (state_of (Queue_next w))) = q_queueStack (self w)"
  "q_name (self (state_of (Queue_next w))) = q_name (self w)"
  "q_options (self (state_of (Queue_next w))) = q_options (self w)"
  "global_name (state_of (Queue_next w)) = global_name w"
  by (simp_all add: Queue_next_def Let_def Queue_run_keeps emit_def)

lemma step_keeps:
  "q_queueStack (self (state_of (step w i))) = q_queueStack (self w)"
  "q_name (self (state_of (step w i))) = q_name (self w)"
  "q_options (self (state_of (step w i))) = q_options (self w)"
  "global_name (state_of (step w i)) = global_name w"
  by (cases i; simp add: step_def Queue_run_keeps Queue_next_keeps Queue_onTaskComplete_def
      Queue_onTaskFailed_def emit_def Queue_task_def)+

lemma step_position:
  "q_queuePosition (self (state_of (step w i))) =
     (case i of
        CallNext \<Rightarrow> Suc (q_queuePosition (self w))
      | Complete p result \<Rightarrow>
          if p < promises w then Suc (q_queuePosition (self w)) else q_queuePosition (self w)
      | _ \<Rightarrow> q_queuePosition (self w))"
  by (cases i; simp add: step_def Queue_run_keeps Queue_next_keeps Queue_onTaskComplete_def
      Queue_onTaskFailed_def emit_def Queue_task_def)

lemma Queue_run_added:
  "\<exists>ext. trace (state_of (Queue_run w rnr)) = trace w @ ext \<and>
     (\<forall>q \<in> set (children ext). q_queueStack q = [global_name w])"
proof (rule Queue_run_cases [of w rnr])
  fix t h ty st kvs
  assume "state_of (Queue_run w rnr) = w\<lparr>heap := h, trace := trace w @ map (forked w ty st) kvs\<rparr>"
  then have "trace (state_of (Queue_run w rnr)) = trace w @ map (forked w ty st) kvs"
    by simp
  moreover have "\<forall>q \<in> set (children (map (forked w ty st) kvs)). q_queueStack q = [global_name w]"
    by (auto simp: children_forked)
  ultimately show ?thesis by blast
qed (simp_all)

lemma Queue_next_added:
  "\<exists>ext. trace (state_of (Queue_next w)) = trace w @ ext \<and>
     (\<forall>q \<in> set (children ext). q_queueStack q = [global_name w])"
proof (cases "Suc (q_queuePosition (self w)) < length (q_queue (self w))")
  case True
  let ?w1 = "w\<lparr>self := (self w)\<lparr>q_queuePosition := Suc (q_queuePosition (self w))\<rparr>\<rparr>"
  have "Queue_next w = Queue_run ?w1 (q_runner (self ?w1))"
    using True by (simp add: Queue_next_def Let_def)
  then show ?thesis using Queue_run_added [of ?w1 "q_runner (self ?w1)"] by simp
next
  case False
  then show ?thesis by (simp add: Queue_next_def Let_def emit_def)
qed

lemma step_added:
  "\<exists>ext. trace (state_of (step w i)) = trace w @ ext \<and>
     (\<forall>q \<in> set (children ext). q_queueStack q = [global_name w])"
proof (cases i)
  case (CallRun rnr)
  then show ?thesis using Queue_run_added [of w rnr] by (simp add: step_def)
next
  case CallNext
  then show ?thesis using Queue_next_added [of w] by (simp add: step_def)
next
  case (Complete p result)
  show ?thesis
  proof (cases "p < promises w")
    case True
    let ?e = "Emit (TaskComplete (q_name (self w))
                (at (q_queue (self w)) (q_queuePosition (self w))) result)"
    obtain ext where ext: "trace (state_of (Queue_next (emit w (TaskComplete (q_name (self w))
                (at (q_queue (self w)) (q_queuePosition (self w))) result)))) = (trace w @ [?e]) @ ext"
      "\<forall>q \<in> set (children ext). q_queueStack q = [global_name w]"
      using Queue_next_added [of "emit w (TaskComplete (q_name (self w))
                (at (q_queue (self w)) (q_queuePosition (self w))) result)"]
      by (auto simp: emit_def)
    have "trace (state_of (step w i)) = trace w @ (?e # ext)"
      using ext(1) True Complete by (simp add: step_def Queue_onTaskComplete_def)
    moreover have "\<forall>q \<in> set (children (?e # ext)). q_queueStack q = [global_name w]"
      using ext(2) by simp
    ultimately show ?thesis by blast
  next
    case False
    then show ?thesis using Complete by (simp add: step_def)
  qed
qed (simp_all add: step_def Queue_onTaskFailed_def emit_def)

lemma quiet_steps:
  "\<forall>i \<in> set is. \<not> resumes i \<Longrightarrow>
     q_queuePosition (self (after w is)) = q_queuePosition (self w) \<and>
     filter isTaskStarted (trace (after w is)) = filter isTaskStarted (trace w) \<and>
     filter isExec (trace (after w is)) = filter isExec (trace w)"
proof (induction "is" arbitrary: w)
  case Nil
  then show ?case by simp
next
  case (Cons i "is")
  have quiet: "\<not> resumes i" and rest: "\<forall>j \<in> set is. \<not> resumes j"
    using Cons.prems by simp_all
  have one: "q_queuePosition (self (state_of (step w i))) = q_queuePosition (self w) \<and>
     filter isTaskStarted (trace (state_of (step w i))) = filter isTaskStarted (trace w) \<and>
     filter isExec (trace (state_of (step w i))) = filter isExec (trace w)"
    using quiet
    by (cases i) (simp_all add: step_def Queue_onTaskFailed_def emit_def Queue_task_def)
  show ?case using Cons.IH [OF rest, of "state_of (step w i)"] one by simp
qed

lemma Queue_run_bound:
  assumes "q_runner (self w) \<noteq> None \<longrightarrow> filter isExec (trace w) \<noteq> []"
  shows "q_runner (self (state_of (Queue_run w rnr))) \<noteq> None \<longrightarrow>
           filter isExec (trace (state_of (Queue_run w rnr))) \<noteq> []"
  using assms by (rule_tac Queue_run_cases [of w rnr]) (simp_all add: filter_forked)

lemma Queue_next_bound:
  assumes "q_runner (self w) \<noteq> None \<longrightarrow> filter isExec (trace w) \<noteq> []"
  shows "q_runner (self (state_of (Queue_next w))) \<noteq> None \<longrightarrow>
           filter isExec (trace (state_of (Queue_next w))) \<noteq> []"
proof (cases "Suc (q_queuePosition (self w)) < length (q_queue (self w))")
  case True
  let ?w1 = "w\<lparr>self := (self w)\<lparr>q_queuePosition := Suc (q_queuePosition (self w))\<rparr>\<rparr>"
  have eq: "Queue_next w = Queue_run ?w1 (q_runner (self ?w1))"
    using True by (simp add: Queue_next_def Let_def)
  have "q_runner (self ?w1) \<noteq> None \<longrightarrow> filter isExec (trace ?w1) \<noteq> []"
    using assms by simp
  then show ?thesis unfolding eq by (rule Queue_run_bound)
next
  case False
  then show ?thesis using assms by (simp add: Queue_next_def Let_def emit_def)
qed

lemma step_bound:
  assumes "q_runner (self w) \<noteq> None \<longrightarrow> filter isExec (trace w) \<noteq> []"
  shows "q_runner (self (state_of (step w i))) \<noteq> None \<longrightarrow>
           filter isExec (trace (state_of (step w i))) \<noteq> []"
proof (cases i)
  case (CallRun rnr)
  then show ?thesis using Queue_run_bound [OF assms, of rnr] by (simp add: step_def)
next
  case CallNext
  then show ?thesis using Queue_next_bound [OF assms] by (simp add: step_def)
next
  case (Complete p result)
  let ?w1 = "emit w (TaskComplete (q_name (self w))
                (at (q_queue (self w)) (q_queuePosition (self w))) result)"
  have "q_runner (self ?w1) \<noteq> None \<longrightarrow> filter isExec (trace ?w1) \<noteq> []"
    using assms by (simp add: emit_def)
  then have "q_runner (self (state_of (Queue_next ?w1))) \<noteq> None \<longrightarrow>
           filter isExec (trace (state_of (Queue_next ?w1))) \<noteq> []"
    by (rule Queue_next_bound)
  then show ?thesis using Complete assms by (simp add: step_def Queue_onTaskComplete_def)
qed (use assms in \<open>simp_all add: step_def Queue_onTaskFailed_def emit_def Queue_task_def\<close>)

lemma after_bound:
  "q_runner (self w) \<noteq> None \<longrightarrow> filter isExec (trace w) \<noteq> [] \<Longrightarrow>
   q_runner (self (after w is)) \<noteq> None \<longrightarrow> filter isExec (trace (after w is)) \<noteq> []"
proof (induction "is" arbitrary: w)
  case Nil
  then show ?case by simp
next
  case (Cons i "is")
  show ?case using Cons.IH [OF step_bound [OF Cons.prems, of i]] by simp
qed

lemma children_names_forked:
  "map q_name (children (map (forked w ty st) kvs)) = map fst kvs"
  by (simp add: children_forked Queue_new_def comp_def)

lemma children_length_forked: "length (children (map (forked w ty st) kvs)) = length kvs"
  by (simp add: children_forked)

lemma called_forked: "called (map (forked w ty st) kvs) = map snd kvs"
  by (induction kvs) (simp_all add: forked_def)

lemma snapshots_forked: "snapshots (map (forked w ty st) kvs) = replicate (length kvs) st"
  by (induction kvs) (simp_all add: forked_def)

lemma attempted_returns: "\<forall>kv \<in> set kvs. returns (snd kv) \<Longrightarrow> attempted kvs = kvs"
  by (induction kvs) auto

lemma eachFork_returns:
  "\<forall>kv \<in> set kvs. returns (snd kv) \<Longrightarrow>
   eachFork ty st w kvs = Returned (w\<lparr>trace := trace w @ map (forked w ty st) kvs\<rparr>)"
proof (rule outcome_eq)
  assume a: "\<forall>kv \<in> set kvs. returns (snd kv)"
  then have "list_all (\<lambda>(k, f). returns f) kvs"
    by (auto simp: list_all_iff)
  then show "raised (eachFork ty st w kvs) =
      raised (Returned (w\<lparr>trace := trace w @ map (forked w ty st) kvs\<rparr>))"
    by (simp add: eachFork_raised)
  show "state_of (eachFork ty st w kvs) =
      state_of (Returned (w\<lparr>trace := trace w @ map (forked w ty st) kvs\<rparr>))"
    using a by (simp add: eachFork_state attempted_returns)
qed

lemma runnerState_heap:
  "runnerState w r = Inr (w1, st) \<Longrightarrow> \<exists>h. w1 = w\<lparr>heap := h\<rparr>"
  by (auto simp: runnerState_def
      split: jsval.splits option.splits hobj.splits sliced.splits if_splits
      intro: exI [of _ "heap w"])

lemma dispatched_forked:
  "dispatched (w\<lparr>heap := h, trace := tr @ map (forked w0 ty st) kvs\<rparr>) =
     (if kvs = [] then dispatched (w\<lparr>trace := tr\<rparr>) else None)"
  by (cases kvs rule: rev_cases) (simp_all add: dispatched_def forked_def)

lemma completions_forked:
  "completions (w\<lparr>heap := h, trace := tr @ map (forked w0 ty st) kvs\<rparr>) = completions (w\<lparr>trace := tr\<rparr>)"
  by (simp add: completions_def filter_forked)

text \<open>run, called on a world whose trace does not end in a dispatch, with the cursor inside\<close>

lemma Queue_run_queue_inv:
  assumes "q_queuePosition (self w) < length (q_queue (self w))"
    and "completions w = 0" and "dispatched w = None"
  shows "queue_inv (state_of (Queue_run w rnr))"
proof (rule Queue_run_cases [of w rnr])
  assume "at (q_queue (self w)) (q_queuePosition (self w)) = None"
  then show ?thesis using assms(1) by (simp add: at_def)
next
  fix t h ty st kvs
  assume "state_of (Queue_run w rnr) = w\<lparr>heap := h, trace := trace w @ map (forked w ty st) kvs\<rparr>"
  then show ?thesis
    using assms by (simp add: queue_inv_def dispatched_forked completions_forked)
next
  fix t
  assume "Queue_run w rnr =
         Raised TypeError (w\<lparr>self := (self w)\<lparr>q_promise := Some (promises w), q_runner := None\<rparr>,
           promises := Suc (promises w),
           trace := trace w @ [Emit (TaskStarted (q_name (self w)) (q_queueStack (self w))
                                     (q_queuePosition (self w)) (ttype t))]\<rparr>)"
  then show ?thesis
    using assms by (simp add: queue_inv_def dispatched_def completions_def)
next
  fix t r
  assume "Queue_run w rnr =
         Returned (w\<lparr>self := (self w)\<lparr>q_promise := Some (promises w), q_runner := Some r\<rparr>,
           promises := Suc (promises w),
           trace := trace w @ [Emit (TaskStarted (q_name (self w)) (q_queueStack (self w))
                                     (q_queuePosition (self w)) (ttype t)),
                               Exec (ttype t) (tspec t) (promises w)]\<rparr>)"
  then show ?thesis
    using assms by (simp add: queue_inv_def dispatched_def completions_def)
qed

lemma queue_inv_step:
  assumes "queue_inv w" and "contract w i"
  shows "queue_inv (state_of (step w i))"
proof (cases i)
  case (CallTask ty sp)
  then show ?thesis using assms(2) by (simp add: contract_def)
next
  case (CallRun rnr)
  then have tr: "trace w = []" using assms(2) by (simp add: contract_def)
  then have c: "completions w = 0" and d: "dispatched w = None"
    by (simp_all add: completions_def dispatched_def)
  then have "q_queuePosition (self w) < length (q_queue (self w))"
    using assms(1) by (auto simp: queue_inv_def)
  then show ?thesis using Queue_run_queue_inv [OF _ c d] CallRun by (simp add: step_def)
next
  case CallNext
  then show ?thesis using assms(2) by (simp add: contract_def)
next
  case (Complete p result)
  then have d: "dispatched w = Some p" using assms(2) by (simp add: contract_def)
  then have p: "p < promises w" and lt: "q_queuePosition (self w) < length (q_queue (self w))"
    using assms(1) by (auto simp: queue_inv_def)
  then have c: "completions w = 0" using assms(1) by (auto simp: queue_inv_def)
  let ?e = "TaskComplete (q_name (self w)) (at (q_queue (self w)) (q_queuePosition (self w))) result"
  let ?w1 = "(emit w ?e)\<lparr>self := (self w)\<lparr>q_queuePosition := Suc (q_queuePosition (self w))\<rparr>\<rparr>"
  have s: "step w i = Queue_next (emit w ?e)"
    using Complete p by (simp add: step_def Queue_onTaskComplete_def)
  show ?thesis
  proof (cases "Suc (q_queuePosition (self w)) < length (q_queue (self w))")
    case True
    have n: "Queue_next (emit w ?e) = Queue_run ?w1 (q_runner (self w))"
      using True by (simp add: Queue_next_def Let_def emit_def)
    have "queue_inv (state_of (Queue_run ?w1 (q_runner (self w))))"
      by (rule Queue_run_queue_inv) (use True c in \<open>simp_all add: emit_def completions_def dispatched_def\<close>)
    then show ?thesis by (simp add: s n)
  next
    case False
    then have eq: "Suc (q_queuePosition (self w)) = length (q_queue (self w))"
      using lt by simp
    have "state_of (Queue_next (emit w ?e)) = emit ?w1 (QueueComplete (q_name (self w)))"
      using False by (simp add: Queue_next_def Let_def emit_def)
    then show ?thesis
      using c eq by (simp add: s queue_inv_def emit_def completions_def dispatched_def)
  qed
next
  case (Failed p result)
  then have d: "dispatched w = Some p" using assms(2) by (simp add: contract_def)
  then have p: "p < promises w" and lt: "q_queuePosition (self w) < length (q_queue (self w))"
    using assms(1) by (auto simp: queue_inv_def)
  then show ?thesis
    using assms(1) Failed
    by (simp add: step_def Queue_onTaskFailed_def queue_inv_def emit_def completions_def dispatched_def)
next
  case (RunnerSet st ty)
  then show ?thesis
    using assms(1) by (simp add: step_def queue_inv_def completions_def dispatched_def)
qed

lemma queue_inv_after: "queue_inv w \<Longrightarrow> lawful w is \<Longrightarrow> queue_inv (after w is)"
proof (induction "is" arbitrary: w)
  case Nil
  then show ?case by simp
next
  case (Cons i "is")
  then show ?case using queue_inv_step [of w i] by simp
qed

lemma queue_inv_start: "ts \<noteq> [] \<Longrightarrow> queue_inv (start nm opts ts h g ks)"
  by (simp add: queue_inv_def start_def built_fields completions_def dispatched_def)

lemma after_append: "after w (xs @ ys) = after (after w xs) ys"
  by (induction xs arbitrary: w) simp_all

lemma successes_Suc: "successes rs (Suc j) = successes rs j @ [Complete j (rs j)]"
  by (simp add: successes_def)

lemma progress:
  assumes nofork: "\<forall>t \<in> set ts. ttype t \<noteq> ''fork''"
  shows "j < length ts \<Longrightarrow>
    after (start nm opts ts h g ks) (CallRun (Some r) # successes rs j) =
      \<lparr>self = (built nm opts ts)\<lparr>q_queuePosition := j, q_runner := Some r, q_promise := Some j\<rparr>,
       heap = h, promises = Suc j, global_name = g, object_keys = ks,
       trace = concat (map (round_of nm ts rs) [0..<j]) @ dispatch_of nm ts j\<rparr>"
proof (induction j)
  case 0
  have t: "ttype (ts ! 0) \<noteq> ''fork''" using nofork 0 by simp
  have "at (q_queue (self (start nm opts ts h g ks))) (q_queuePosition (self (start nm opts ts h g ks)))
      = Some (ts ! 0)"
    using 0 by (simp add: start_def built_fields at_def)
  from Queue_run_exec [OF this t, of r] show ?case
    by (simp add: successes_def step_def start_def built_fields dispatch_of_def)
next
  case (Suc j)
  let ?w = "\<lparr>self = (built nm opts ts)\<lparr>q_queuePosition := j, q_runner := Some r, q_promise := Some j\<rparr>,
       heap = h, promises = Suc j, global_name = g, object_keys = ks,
       trace = concat (map (round_of nm ts rs) [0..<j]) @ dispatch_of nm ts j\<rparr>"
  have IH: "after (start nm opts ts h g ks) (CallRun (Some r) # successes rs j) = ?w"
    using Suc by simp
  have t: "ttype (ts ! Suc j) \<noteq> ''fork''" using nofork Suc.prems by simp
  let ?w1 = "?w\<lparr>self := (self ?w)\<lparr>q_queuePosition := Suc j\<rparr>,
               trace := trace ?w @ [Emit (TaskComplete nm (Some (ts ! j)) (rs j))]\<rparr>"
  have a: "at (q_queue (self ?w1)) (q_queuePosition (self ?w1)) = Some (ts ! Suc j)"
    using Suc.prems by (simp add: built_fields at_def)
  have "step ?w (Complete j (rs j)) = Queue_run ?w1 (Some r)"
    using Suc.prems
    by (simp add: step_def Queue_onTaskComplete_def Queue_next_def Let_def emit_def built_fields
        at_def)
  also have "\<dots> = Returned
      \<lparr>self = (built nm opts ts)\<lparr>q_queuePosition := Suc j, q_runner := Some r,
          q_promise := Some (Suc j)\<rparr>,
       heap = h, promises = Suc (Suc j), global_name = g, object_keys = ks,
       trace = concat (map (round_of nm ts rs) [0..<Suc j]) @ dispatch_of nm ts (Suc j)\<rparr>"
    unfolding Queue_run_exec [OF a t, of r]
    by (simp add: built_fields round_of_def dispatch_of_def)
  finally have s: "state_of (step ?w (Complete j (rs j))) =
      \<lparr>self = (built nm opts ts)\<lparr>q_queuePosition := Suc j, q_runner := Some r,
          q_promise := Some (Suc j)\<rparr>,
       heap = h, promises = Suc (Suc j), global_name = g, object_keys = ks,
       trace = concat (map (round_of nm ts rs) [0..<Suc j]) @ dispatch_of nm ts (Suc j)\<rparr>"
    by simp
  have "after (start nm opts ts h g ks) (CallRun (Some r) # successes rs (Suc j)) =
      after (after (start nm opts ts h g ks) (CallRun (Some r) # successes rs j)) [Complete j (rs j)]"
    unfolding successes_Suc by (simp add: after_append [symmetric] del: after.simps)
  then show ?case unfolding IH using s by simp
qed

lemma finish:
  assumes nofork: "\<forall>t \<in> set ts. ttype t \<noteq> ''fork''" and ne: "ts \<noteq> []"
  shows "trace (after (start nm opts ts h g ks) (CallRun (Some r) # successes rs (length ts))) =
       concat (map (round_of nm ts rs) [0..<length ts]) @ [Emit (QueueComplete nm)] \<and>
     q_queuePosition (self (after (start nm opts ts h g ks)
       (CallRun (Some r) # successes rs (length ts)))) = length ts"
proof -
  obtain j where j: "length ts = Suc j" using ne by (cases ts) simp_all
  let ?w = "\<lparr>self = (built nm opts ts)\<lparr>q_queuePosition := j, q_runner := Some r, q_promise := Some j\<rparr>,
       heap = h, promises = Suc j, global_name = g, object_keys = ks,
       trace = concat (map (round_of nm ts rs) [0..<j]) @ dispatch_of nm ts j\<rparr>"
  have p: "after (start nm opts ts h g ks) (CallRun (Some r) # successes rs j) = ?w"
    using progress [OF nofork, of j] j by simp
  have "after (start nm opts ts h g ks) (CallRun (Some r) # successes rs (Suc j)) =
      after (after (start nm opts ts h g ks) (CallRun (Some r) # successes rs j)) [Complete j (rs j)]"
    unfolding successes_Suc by (simp add: after_append [symmetric] del: after.simps)
  then have "after (start nm opts ts h g ks) (CallRun (Some r) # successes rs (Suc j)) =
      state_of (step ?w (Complete j (rs j)))"
    unfolding p by simp
  moreover have "trace (state_of (step ?w (Complete j (rs j)))) =
       concat (map (round_of nm ts rs) [0..<Suc j]) @ [Emit (QueueComplete nm)] \<and>
     q_queuePosition (self (state_of (step ?w (Complete j (rs j))))) = Suc j"
    using j
    by (simp add: step_def Queue_onTaskComplete_def Queue_next_def Let_def emit_def built_fields
        at_def round_of_def)
  ultimately show ?thesis by (simp add: j)
qed

lemma count_rounds:
  "length (filter isTaskStarted (concat (map (round_of nm ts rs) [0..<n]))) = n"
  "length (filter isTaskComplete (concat (map (round_of nm ts rs) [0..<n]))) = n"
  "length (filter isExec (concat (map (round_of nm ts rs) [0..<n]))) = n"
  "filter isQueueComplete (concat (map (round_of nm ts rs) [0..<n])) = []"
  by (induction n) (simp_all add: round_of_def dispatch_of_def)

text \<open>The equations that evaluate a run on a concrete queue.\<close>

lemmas run_defs = step_def Queue_run_def Queue_next_def Queue_onTaskComplete_def
  Queue_onTaskFailed_def Queue_fork_def runnerState_def emit_def at_def start_def
  Queue_new_def Queue_task_def Let_def built_fields added_def

subsection \<open>Running past the end\<close>

text \<open>
  Claim C9. Calling \<open>run\<close> when the cursor is past the end of the tasks (an empty or an
  exhausted queue) throws: nothing is emitted, nothing is dispatched and no field is
  written. The error is the TypeError of reading \<open>t.type\<close>; the \<open>throw new Error\<close> of the
  other branch is never reached.
\<close>

theorem run_past_end_raises:
  assumes "length (q_queue (self w)) \<le> q_queuePosition (self w)"
  shows "Queue_run w rnr = Raised TypeError w"
  using assms by (simp add: Queue_run_def at_def)

theorem run_past_end_raises_witness:
  "length (q_queue (self (start ''build'' Undefined [] [] Undefined no_keys)))
     \<le> q_queuePosition (self (start ''build'' Undefined [] [] Undefined no_keys)) \<and>
   Queue_run (start ''build'' Undefined [] [] Undefined no_keys)
     (Some \<lparr>r_state = Undefined, r_type = Undefined\<rparr>)
     = Raised TypeError (start ''build'' Undefined [] [] Undefined no_keys)"
  using run_past_end_raises [of "start ''build'' Undefined [] [] Undefined no_keys"
      "Some \<lparr>r_state = Undefined, r_type = Undefined\<rparr>"]
  by (simp add: start_def built_fields)

subsection \<open>Signals and the cursor\<close>

text \<open>
  Claim C6, as the code has it. A success signal that the Queue receives (one emitted
  on a promise it created) moves the cursor forward by exactly one, whether or not the
  dispatch of the following task then throws; a signal on a promise it did not create
  has no handler and changes nothing. A failure signal leaves the cursor where it is.
  The success handler advances the cursor by calling \<open>next\<close>, a public method: a call of
  \<open>next\<close> from outside moves the cursor by one as well. \<open>run\<close>, \<open>task\<close> and a write of the
  runner to its own fields leave the cursor where it is.
\<close>

theorem position_per_signal:
  "(p < promises w \<longrightarrow>
      q_queuePosition (self (state_of (step w (Complete p result)))) = q_queuePosition (self w) + 1) \<and>
   (promises w \<le> p \<longrightarrow>
      q_queuePosition (self (state_of (step w (Complete p result)))) = q_queuePosition (self w)) \<and>
   q_queuePosition (self (state_of (step w (Failed p result)))) = q_queuePosition (self w) \<and>
   q_queuePosition (self (state_of (step w CallNext))) = q_queuePosition (self w) + 1 \<and>
   q_queuePosition (self (state_of (step w (CallRun rnr)))) = q_queuePosition (self w) \<and>
   q_queuePosition (self (state_of (step w (CallTask ty sp)))) = q_queuePosition (self w) \<and>
   q_queuePosition (self (state_of (step w (RunnerSet st ty')))) = q_queuePosition (self w)"
  by (simp add: step_position)

theorem position_per_signal_witness:
  "0 < promises (after build [CallRun (Some plain_runner)]) \<and>
   q_queuePosition (self (after build [CallRun (Some plain_runner)])) = 0 \<and>
   q_queuePosition (self (state_of (step (after build [CallRun (Some plain_runner)])
      (Complete 0 (Prim ''R1''))))) = 1 \<and>
   promises (after build [CallRun (Some plain_runner)]) \<le> 7 \<and>
   q_queuePosition (self (state_of (step (after build [CallRun (Some plain_runner)])
      (Complete 7 (Prim ''R1''))))) = 0 \<and>
   q_queuePosition (self (state_of (step (after build [CallRun (Some plain_runner)])
      (Failed 0 (Prim ''E''))))) = 0 \<and>
   q_queuePosition (self (state_of (step (after build [CallRun (Some plain_runner)])
      CallNext))) = 1"
  using position_per_signal [of 0 "after build [CallRun (Some plain_runner)]" "Prim ''R1''"]
    position_per_signal [of 7 "after build [CallRun (Some plain_runner)]" "Prim ''R1''"]
    position_per_signal [of 0 "after build [CallRun (Some plain_runner)]" "Prim ''E''"]
  by (simp add: run_defs build_def plain_runner_def)

text \<open>
  The claim as stated fails on the queue \<open>build\<close> after its first dispatch: a call of
  \<open>next\<close> moves the cursor from 0 to 1, and no success signal was received (no
  \<open>taskComplete\<close> was emitted).
\<close>

theorem position_per_signal_counterexample:
  "q_queuePosition (self (after build [CallRun (Some plain_runner)])) = 0 \<and>
   q_queuePosition (self (after build [CallRun (Some plain_runner), CallNext])) = 1 \<and>
   filter isTaskComplete (trace (after build [CallRun (Some plain_runner), CallNext])) = []"
  by (simp add: run_defs build_def plain_runner_def)

subsection \<open>Failure\<close>

text \<open>
  Claim C2, as the code has it. When the Queue receives a failure signal it emits \<open>taskFailed\<close> with the
  task at the cursor and the error, and does nothing else: no field of the Queue
  changes, so the cursor stays at the failed task and \<open>next\<close> is not called. From then
  on, as long as nobody calls \<open>run\<close> or \<open>next\<close> and no success signal arrives, the cursor
  stays there and no \<open>taskStarted\<close> event is emitted, whatever else reaches the Queue
  (further failure signals, appended tasks, writes of the runner).
\<close>

theorem failure_halts:
  assumes "p < promises w" and "\<forall>i \<in> set is. \<not> resumes i"
  shows "step w (Failed p err) =
           Returned (emit w (TaskFailed (q_name (self w))
                       (at (q_queue (self w)) (q_queuePosition (self w))) err)) \<and>
         self (state_of (step w (Failed p err))) = self w \<and>
         q_queuePosition (self (after (state_of (step w (Failed p err))) is))
           = q_queuePosition (self w) \<and>
         filter isTaskStarted (trace (after (state_of (step w (Failed p err))) is))
           = filter isTaskStarted (trace w)"
proof -
  let ?w' = "emit w (TaskFailed (q_name (self w))
                       (at (q_queue (self w)) (q_queuePosition (self w))) err)"
  have s: "step w (Failed p err) = Returned ?w'"
    using assms(1) by (simp add: step_def Queue_onTaskFailed_def)
  have "q_queuePosition (self (after ?w' is)) = q_queuePosition (self ?w') \<and>
     filter isTaskStarted (trace (after ?w' is)) = filter isTaskStarted (trace ?w')"
    using quiet_steps [OF assms(2), of ?w'] by simp
  then show ?thesis unfolding s by (simp add: emit_def)
qed

theorem failure_halts_witness:
  "0 < promises (after build [CallRun (Some plain_runner)]) \<and>
   map resumes [Failed 0 (Prim ''E''), RunnerSet Undefined Undefined,
                CallTask ''log'' (Opaque Undefined)] = [False, False, False] \<and>
   trace (state_of (step (after build [CallRun (Some plain_runner)]) (Failed 0 (Prim ''E'')))) =
     [Emit (TaskStarted ''build'' [] 0 ''files''),
      Exec ''files'' (Opaque (Prim ''*.js'')) 0,
      Emit (TaskFailed ''build'' (Some (TaskRecord ''files'' (Opaque (Prim ''*.js''))))
              (Prim ''E''))] \<and>
   q_queuePosition (self (after (state_of (step (after build [CallRun (Some plain_runner)])
        (Failed 0 (Prim ''E''))))
      [Failed 0 (Prim ''E''), RunnerSet Undefined Undefined, CallTask ''log'' (Opaque Undefined)]))
     = 0 \<and>
   filter isTaskStarted (trace (after (state_of (step (after build [CallRun (Some plain_runner)])
        (Failed 0 (Prim ''E''))))
      [Failed 0 (Prim ''E''), RunnerSet Undefined Undefined, CallTask ''log'' (Opaque Undefined)]))
     = [Emit (TaskStarted ''build'' [] 0 ''files'')]"
proof -
  have h1: "0 < promises (after build [CallRun (Some plain_runner)])"
    by (simp add: run_defs build_def plain_runner_def)
  have h2: "\<forall>i \<in> set [Failed 0 (Prim ''E''), RunnerSet Undefined Undefined,
                 CallTask ''log'' (Opaque Undefined)]. \<not> resumes i"
    by simp
  show ?thesis
    using failure_halts [OF h1 h2, of "Prim ''E''"]
    by (simp add: run_defs build_def plain_runner_def)
qed

text \<open>
  The claim as stated fails on the queue \<open>build\<close> whose first task has failed: the Queue
  keeps no record of the failure, and a later success signal on the same promise, or a
  call of \<open>next\<close>, makes it emit \<open>taskStarted\<close> for the task at index 1.
\<close>

theorem failure_halts_counterexample:
  "trace (after build [CallRun (Some plain_runner), Failed 0 (Prim ''E''),
       Complete 0 (Prim ''R1'')]) =
     [Emit (TaskStarted ''build'' [] 0 ''files''),
      Exec ''files'' (Opaque (Prim ''*.js'')) 0,
      Emit (TaskFailed ''build'' (Some (TaskRecord ''files'' (Opaque (Prim ''*.js''))))
              (Prim ''E'')),
      Emit (TaskComplete ''build'' (Some (TaskRecord ''files'' (Opaque (Prim ''*.js''))))
              (Prim ''R1'')),
      Emit (TaskStarted ''build'' [] 1 ''concat''),
      Exec ''concat'' (Opaque Undefined) 1] \<and>
   trace (after build [CallRun (Some plain_runner), Failed 0 (Prim ''E''), CallNext]) =
     [Emit (TaskStarted ''build'' [] 0 ''files''),
      Exec ''files'' (Opaque (Prim ''*.js'')) 0,
      Emit (TaskFailed ''build'' (Some (TaskRecord ''files'' (Opaque (Prim ''*.js''))))
              (Prim ''E'')),
      Emit (TaskStarted ''build'' [] 1 ''concat''),
      Exec ''concat'' (Opaque Undefined) 1]"
  by (simp add: run_defs build_def plain_runner_def)

subsection \<open>Ancestry\<close>

text \<open>
  Claim C3, as the code has it. \<open>_queueStack\<close> is written in one place only, the \<open>push\<close>
  in \<open>_fork\<close>, on the Queue just created there. So no call and no signal changes the
  ancestry of an existing Queue, and every Queue created by a fork has an ancestry of
  exactly one entry: the line that would copy the parent's ancestry is commented out.
\<close>

theorem ancestry_of_children:
  "q_queueStack (self (state_of (step w i))) = q_queueStack (self w) \<and>
   (\<forall>q \<in> set (children (added w (state_of (step w i)))). length (q_queueStack q) = 1)"
proof -
  obtain ext where "trace (state_of (step w i)) = trace w @ ext"
      "\<forall>q \<in> set (children ext). q_queueStack q = [global_name w]"
    using step_added by blast
  then show ?thesis by (simp add: added_def step_keeps)
qed

theorem ancestry_of_children_witness:
  "map q_name (children (added (after debug_branch [CallRun (Some nested_runner)])
      (state_of (step (after debug_branch [CallRun (Some nested_runner)])
         (Complete 0 (Prim ''R1'')))))) = [''min'', ''lint''] \<and>
   q_queueStack (self (state_of (step (after debug_branch [CallRun (Some nested_runner)])
         (Complete 0 (Prim ''R1''))))) = [Undefined] \<and>
   map length (map q_queueStack (children (added (after debug_branch [CallRun (Some nested_runner)])
      (state_of (step (after debug_branch [CallRun (Some nested_runner)])
         (Complete 0 (Prim ''R1''))))))) = [1, 1]"
  using ancestry_of_children [of "after debug_branch [CallRun (Some nested_runner)]"
      "Complete 0 (Prim ''R1'')"]
  by (simp add: run_defs debug_branch_def nested_runner_def)

text \<open>
  The claim as stated fails on the queue \<open>debug\<close>, which has one ancestor: the Queues
  \<open>min\<close> and \<open>lint\<close> it forks have one ancestor as well, not the two the claim gives them.
\<close>

theorem ancestry_of_children_counterexample:
  "q_name (self debug_branch) = ''debug'' \<and>
   q_queueStack (self debug_branch) = [Undefined] \<and>
   map q_name (children (trace (after debug_branch
      [CallRun (Some nested_runner), Complete 0 (Prim ''R1'')]))) = [''min'', ''lint''] \<and>
   map q_queueStack (children (trace (after debug_branch
      [CallRun (Some nested_runner), Complete 0 (Prim ''R1'')]))) = [[Undefined], [Undefined]] \<and>
   q_queueStack (hd (children (trace (after debug_branch
      [CallRun (Some nested_runner), Complete 0 (Prim ''R1'')]))))
     \<noteq> q_queueStack (self debug_branch) @ [Prim (q_name (self debug_branch))]"
  by (simp add: run_defs debug_branch_def nested_runner_def)

subsection \<open>A fork before any dispatch\<close>

text \<open>
  Claim C10. \<open>run(runner)\<close> stores its argument in \<open>_runner\<close> on the path of an ordinary
  task only. A Queue that has never called \<open>exec\<close> therefore has no runner, whatever
  reached it before, and when the task at its cursor is a fork, \<open>run\<close> throws the
  TypeError of reading \<open>_state\<close> of undefined, writing nothing: the runner just passed is
  not looked at.
\<close>

theorem fork_without_runner_raises:
  assumes "w = after (start nm opts ts h g ks) is"
    and "filter isExec (trace w) = []"
    and "at (q_queue (self w)) (q_queuePosition (self w)) = Some t"
    and "ttype t = ''fork''"
  shows "Queue_run w (Some r) = Raised TypeError w"
proof -
  have "q_runner (self (start nm opts ts h g ks)) \<noteq> None \<longrightarrow>
          filter isExec (trace (start nm opts ts h g ks)) \<noteq> []"
    by (simp add: start_def built_fields)
  then have "q_runner (self w) \<noteq> None \<longrightarrow> filter isExec (trace w) \<noteq> []"
    unfolding assms(1) by (rule after_bound)
  then have "q_runner (self w) = None" using assms(2) by blast
  then show ?thesis
    using assms(3,4) by (simp add: Queue_run_fork Queue_fork_def)
qed

theorem fork_without_runner_raises_witness:
  "fork_only = after (start ''build'' Undefined
     [TaskRecord ''fork'' (Forkspec [(''debug'', Cont 1 True), (''min'', Cont 2 True)])]
     [] Undefined no_keys) [] \<and>
   filter isExec (trace fork_only) = [] \<and>
   at (q_queue (self fork_only)) (q_queuePosition (self fork_only))
     = Some (TaskRecord ''fork'' (Forkspec [(''debug'', Cont 1 True), (''min'', Cont 2 True)])) \<and>
   Queue_run fork_only (Some plain_runner) = Raised TypeError fork_only"
proof -
  have a: "fork_only = after (start ''build'' Undefined
     [TaskRecord ''fork'' (Forkspec [(''debug'', Cont 1 True), (''min'', Cont 2 True)])]
     [] Undefined no_keys) []"
    by (simp add: fork_only_def)
  have b: "filter isExec (trace fork_only) = []"
    by (simp add: fork_only_def start_def)
  have c: "at (q_queue (self fork_only)) (q_queuePosition (self fork_only))
     = Some (TaskRecord ''fork'' (Forkspec [(''debug'', Cont 1 True), (''min'', Cont 2 True)]))"
    by (simp add: fork_only_def start_def built_fields at_def)
  show ?thesis
    using fork_without_runner_raises [OF a b c, of plain_runner] a b c by simp
qed

subsection \<open>Forking\<close>

text \<open>
  Claim C7, as the code has it. When the task at the cursor is a fork, \<open>run\<close> never
  calls the runner's \<open>exec\<close> and writes no field of the Queue. When moreover a runner
  is bound to the Queue (an ordinary task was dispatched before), its state is a
  primitive, \<open>undefined\<close> or an array, and every function of the fork spec returns, then
  \<open>run\<close> returns after creating one Queue per entry of the spec, named by the key, in the
  order of the keys, and calling the function of each entry once.
\<close>

theorem fork_creates_children:
  assumes "at (q_queue (self w)) (q_queuePosition (self w)) = Some t"
    and "ttype t = ''fork''"
  shows "filter isExec (added w (state_of (Queue_run w rnr))) = [] \<and>
    self (state_of (Queue_run w rnr)) = self w \<and>
    (\<forall>kvs r w1 st.
       tspec t = Forkspec kvs \<and> q_runner (self w) = Some r \<and> runnerState w r = Inr (w1, st) \<and>
       (\<forall>kv \<in> set kvs. returns (snd kv)) \<longrightarrow>
         raised (Queue_run w rnr) = None \<and>
         length (children (added w (state_of (Queue_run w rnr)))) = length kvs \<and>
         map q_name (children (added w (state_of (Queue_run w rnr)))) = map fst kvs \<and>
         called (added w (state_of (Queue_run w rnr))) = map snd kvs \<and>
         added w (state_of (Queue_run w rnr)) = map (forked w (r_type r) st) kvs)"
proof -
  have run: "Queue_run w rnr = Queue_fork w (tspec t)"
    using assms by (rule Queue_run_fork)
  obtain h ty st kvs where shape:
    "state_of (Queue_fork w (tspec t)) = w\<lparr>heap := h, trace := trace w @ map (forked w ty st) kvs\<rparr>"
    using Queue_fork_shape by blast
  have first: "filter isExec (added w (state_of (Queue_run w rnr))) = [] \<and>
    self (state_of (Queue_run w rnr)) = self w"
    unfolding run shape by (simp add: added_def filter_forked)
  have second: "raised (Queue_run w rnr) = None \<and>
         length (children (added w (state_of (Queue_run w rnr)))) = length kvs \<and>
         map q_name (children (added w (state_of (Queue_run w rnr)))) = map fst kvs \<and>
         called (added w (state_of (Queue_run w rnr))) = map snd kvs \<and>
         added w (state_of (Queue_run w rnr)) = map (forked w (r_type r) st) kvs"
    if h: "tspec t = Forkspec kvs" "q_runner (self w) = Some r" "runnerState w r = Inr (w1, st)"
      "\<forall>kv \<in> set kvs. returns (snd kv)" for kvs r w1 st
  proof -
    obtain h' where w1: "w1 = w\<lparr>heap := h'\<rparr>"
      using runnerState_heap [OF h(3)] by blast
    have "Queue_run w rnr = Returned (w\<lparr>heap := h', trace := trace w @ map (forked w (r_type r) st) kvs\<rparr>)"
      unfolding run using h by (simp add: Queue_fork_def eachFork_returns w1 forked_def)
    then show ?thesis
      by (simp add: added_def children_names_forked called_forked children_length_forked)
  qed
  show ?thesis using first second by blast
qed

theorem fork_creates_children_witness:
  "at (q_queue (self debug_at_fork)) (q_queuePosition (self debug_at_fork)) =
     Some (TaskRecord ''fork'' (Forkspec [(''min'', Cont 1 True), (''lint'', Cont 2 True)])) \<and>
   q_runner (self debug_at_fork) = Some nested_runner \<and>
   runnerState debug_at_fork nested_runner =
     Inr (debug_at_fork\<lparr>heap := [Arr [Ref 1], Arr [Prim ''a.js''], Arr [Ref 1]]\<rparr>, Ref 2) \<and>
   map returns (map snd [(''min'', Cont 1 True), (''lint'', Cont 2 True)]) = [True, True] \<and>
   raised (Queue_run debug_at_fork None) = None \<and>
   map q_name (children (added debug_at_fork (state_of (Queue_run debug_at_fork None))))
     = [''min'', ''lint''] \<and>
   called (added debug_at_fork (state_of (Queue_run debug_at_fork None)))
     = [Cont 1 True, Cont 2 True] \<and>
   filter isExec (added debug_at_fork (state_of (Queue_run debug_at_fork None))) = []"
proof -
  have a: "at (q_queue (self debug_at_fork)) (q_queuePosition (self debug_at_fork)) =
     Some (TaskRecord ''fork'' (Forkspec [(''min'', Cont 1 True), (''lint'', Cont 2 True)]))"
    by (simp add: debug_at_fork_def debug_branch_def built_fields at_def)
  have b: "ttype (TaskRecord ''fork'' (Forkspec [(''min'', Cont 1 True), (''lint'', Cont 2 True)]))
     = ''fork''"
    by simp
  have c: "q_runner (self debug_at_fork) = Some nested_runner"
    by (simp add: debug_at_fork_def)
  have d: "runnerState debug_at_fork nested_runner =
     Inr (debug_at_fork\<lparr>heap := [Arr [Ref 1], Arr [Prim ''a.js''], Arr [Ref 1]]\<rparr>, Ref 2)"
    by (simp add: runnerState_def debug_at_fork_def debug_branch_def nested_runner_def at_def)
  have e: "\<forall>kv \<in> set [(''min'', Cont 1 True), (''lint'', Cont 2 True)]. returns (snd kv)"
    by simp
  show ?thesis
    using fork_creates_children [OF a b, of None] a c d e
    by (simp add: forked_def Queue_new_def)
qed

text \<open>
  The claim as stated fails on a Queue whose first task is the fork: no runner is bound
  yet, \<open>run\<close> throws, and no Queue is created and no function called.
\<close>

theorem fork_creates_children_counterexample:
  "at (q_queue (self fork_only)) (q_queuePosition (self fork_only)) =
     Some (TaskRecord ''fork'' (Forkspec [(''debug'', Cont 1 True), (''min'', Cont 2 True)])) \<and>
   raised (Queue_run fork_only (Some nested_runner)) = Some TypeError \<and>
   children (trace (state_of (Queue_run fork_only (Some nested_runner)))) = [] \<and>
   called (trace (state_of (Queue_run fork_only (Some nested_runner)))) = []"
  by (simp add: run_defs fork_only_def)

subsection \<open>The state handed to the branches\<close>

text \<open>
  Claim C8, as the code has it. \<open>_fork\<close> takes one snapshot of the runner's state, before
  the loop, and builds the worker of every branch from it and from the runner's type.
  When the state is an array the snapshot is a newly allocated array with the same
  elements, a shallow copy: it is a different object from the parent's array, and the
  objects its elements refer to are the parent's. When the state is not an instance of
  \<open>Object\<close> (a primitive, \<open>undefined\<close>, an object without prototype) the snapshot is the
  state itself. When it is another instance of \<open>Object\<close>, the snapshot is what the call
  of its \<open>slice\<close> method returns, and \<open>_fork\<close> throws when it has no such method or the
  call throws.
\<close>

theorem snapshot_is_shallow:
  assumes "q_runner (self w) = Some r"
  shows
   "(\<forall>a vs. r_state r = Ref a \<and> at (heap w) a = Some (Arr vs) \<longrightarrow>
        a < length (heap w) \<and>
        heap (state_of (Queue_fork w (Forkspec kvs))) = heap w @ [Arr vs] \<and>
        added w (state_of (Queue_fork w (Forkspec kvs))) =
          map (forked w (r_type r) (Ref (length (heap w)))) (attempted kvs) \<and>
        snapshots (added w (state_of (Queue_fork w (Forkspec kvs)))) =
          replicate (length (attempted kvs)) (Ref (length (heap w)))) \<and>
    ((\<forall>a. r_state r \<noteq> Ref a) \<longrightarrow>
        heap (state_of (Queue_fork w (Forkspec kvs))) = heap w \<and>
        added w (state_of (Queue_fork w (Forkspec kvs))) =
          map (forked w (r_type r) (r_state r)) (attempted kvs) \<and>
        snapshots (added w (state_of (Queue_fork w (Forkspec kvs)))) =
          replicate (length (attempted kvs)) (r_state r)) \<and>
    (\<forall>a vs sl. r_state r = Ref a \<and> at (heap w) a = Some (Obj False vs sl) \<longrightarrow>
        heap (state_of (Queue_fork w (Forkspec kvs))) = heap w \<and>
        added w (state_of (Queue_fork w (Forkspec kvs))) =
          map (forked w (r_type r) (Ref a)) (attempted kvs) \<and>
        snapshots (added w (state_of (Queue_fork w (Forkspec kvs)))) =
          replicate (length (attempted kvs)) (Ref a)) \<and>
    (\<forall>a vs. r_state r = Ref a \<and> at (heap w) a = Some (Obj True vs None) \<longrightarrow>
        Queue_fork w (Forkspec kvs) = Raised TypeError w) \<and>
    (\<forall>a vs v. r_state r = Ref a \<and> at (heap w) a = Some (Obj True vs (Some (Yields v))) \<longrightarrow>
        heap (state_of (Queue_fork w (Forkspec kvs))) = heap w \<and>
        added w (state_of (Queue_fork w (Forkspec kvs))) =
          map (forked w (r_type r) v) (attempted kvs) \<and>
        snapshots (added w (state_of (Queue_fork w (Forkspec kvs)))) =
          replicate (length (attempted kvs)) v) \<and>
    (\<forall>a vs ob. r_state r = Ref a \<and> at (heap w) a = Some (Obj True vs (Some (Fresh ob))) \<longrightarrow>
        heap (state_of (Queue_fork w (Forkspec kvs))) = heap w @ [ob] \<and>
        added w (state_of (Queue_fork w (Forkspec kvs))) =
          map (forked w (r_type r) (Ref (length (heap w)))) (attempted kvs) \<and>
        snapshots (added w (state_of (Queue_fork w (Forkspec kvs)))) =
          replicate (length (attempted kvs)) (Ref (length (heap w)))) \<and>
    (\<forall>a vs. r_state r = Ref a \<and> at (heap w) a = Some (Obj True vs (Some Fails)) \<longrightarrow>
        Queue_fork w (Forkspec kvs) = Raised Thrown w)"
proof -
  have given: "heap (state_of (Queue_fork w (Forkspec kvs))) = heap w1 \<and>
      added w (state_of (Queue_fork w (Forkspec kvs))) =
        map (forked w (r_type r) st) (attempted kvs) \<and>
      snapshots (added w (state_of (Queue_fork w (Forkspec kvs)))) =
        replicate (length (attempted kvs)) st"
    if rs: "runnerState w r = Inr (w1, st)" for w1 st
  proof -
    obtain h where w1: "w1 = w\<lparr>heap := h\<rparr>"
      using runnerState_heap [OF rs] by blast
    have "state_of (Queue_fork w (Forkspec kvs)) =
        w\<lparr>heap := h, trace := trace w @ map (forked w (r_type r) st) (attempted kvs)\<rparr>"
      using assms rs by (simp add: Queue_fork_def eachFork_state forked_def w1)
    then show ?thesis by (simp add: added_def snapshots_forked w1)
  qed
  have refused: "Queue_fork w (Forkspec kvs) = Raised e w" if "runnerState w r = Inl e" for e
    using assms that by (simp add: Queue_fork_def)
  have arr: "a < length (heap w) \<and>
        heap (state_of (Queue_fork w (Forkspec kvs))) = heap w @ [Arr vs] \<and>
        added w (state_of (Queue_fork w (Forkspec kvs))) =
          map (forked w (r_type r) (Ref (length (heap w)))) (attempted kvs) \<and>
        snapshots (added w (state_of (Queue_fork w (Forkspec kvs)))) =
          replicate (length (attempted kvs)) (Ref (length (heap w)))"
    if h: "r_state r = Ref a \<and> at (heap w) a = Some (Arr vs)" for a vs
  proof -
    have "runnerState w r = Inr (w\<lparr>heap := heap w @ [Arr vs]\<rparr>, Ref (length (heap w)))"
      using h by (simp add: runnerState_def)
    from given [OF this] show ?thesis using h by (simp add: at_Some snapshots_forked)
  qed
  have prim: "heap (state_of (Queue_fork w (Forkspec kvs))) = heap w \<and>
        added w (state_of (Queue_fork w (Forkspec kvs))) =
          map (forked w (r_type r) (r_state r)) (attempted kvs) \<and>
        snapshots (added w (state_of (Queue_fork w (Forkspec kvs)))) =
          replicate (length (attempted kvs)) (r_state r)"
    if h: "\<forall>a. r_state r \<noteq> Ref a"
  proof -
    have "runnerState w r = Inr (w, r_state r)"
      using h by (cases "r_state r") (simp_all add: runnerState_def)
    from given [OF this] show ?thesis .
  qed
  have bare: "heap (state_of (Queue_fork w (Forkspec kvs))) = heap w \<and>
        added w (state_of (Queue_fork w (Forkspec kvs))) =
          map (forked w (r_type r) (Ref a)) (attempted kvs) \<and>
        snapshots (added w (state_of (Queue_fork w (Forkspec kvs)))) =
          replicate (length (attempted kvs)) (Ref a)"
    if h: "r_state r = Ref a \<and> at (heap w) a = Some (Obj False vs sl)" for a vs sl
  proof -
    have "runnerState w r = Inr (w, Ref a)"
      using h by (simp add: runnerState_def)
    from given [OF this] show ?thesis .
  qed
  have noslice: "Queue_fork w (Forkspec kvs) = Raised TypeError w"
    if h: "r_state r = Ref a \<and> at (heap w) a = Some (Obj True vs None)" for a vs
    by (rule refused) (use h in \<open>simp add: runnerState_def\<close>)
  have yields: "heap (state_of (Queue_fork w (Forkspec kvs))) = heap w \<and>
        added w (state_of (Queue_fork w (Forkspec kvs))) =
          map (forked w (r_type r) v) (attempted kvs) \<and>
        snapshots (added w (state_of (Queue_fork w (Forkspec kvs)))) =
          replicate (length (attempted kvs)) v"
    if h: "r_state r = Ref a \<and> at (heap w) a = Some (Obj True vs (Some (Yields v)))" for a vs v
  proof -
    have "runnerState w r = Inr (w, v)"
      using h by (simp add: runnerState_def)
    from given [OF this] show ?thesis .
  qed
  have fresh: "heap (state_of (Queue_fork w (Forkspec kvs))) = heap w @ [ob] \<and>
        added w (state_of (Queue_fork w (Forkspec kvs))) =
          map (forked w (r_type r) (Ref (length (heap w)))) (attempted kvs) \<and>
        snapshots (added w (state_of (Queue_fork w (Forkspec kvs)))) =
          replicate (length (attempted kvs)) (Ref (length (heap w)))"
    if h: "r_state r = Ref a \<and> at (heap w) a = Some (Obj True vs (Some (Fresh ob)))" for a vs ob
  proof -
    have "runnerState w r = Inr (w\<lparr>heap := heap w @ [ob]\<rparr>, Ref (length (heap w)))"
      using h by (simp add: runnerState_def)
    from given [OF this] show ?thesis by (simp add: snapshots_forked)
  qed
  have fails: "Queue_fork w (Forkspec kvs) = Raised Thrown w"
    if h: "r_state r = Ref a \<and> at (heap w) a = Some (Obj True vs (Some Fails))" for a vs
    by (rule refused) (use h in \<open>simp add: runnerState_def\<close>)
  show ?thesis
    using arr prim bare noslice yields fresh fails by blast
qed

theorem snapshot_is_shallow_witness:
  "q_runner (self debug_at_fork) = Some nested_runner \<and>
   r_state nested_runner = Ref 0 \<and> at (heap debug_at_fork) 0 = Some (Arr [Ref 1]) \<and>
   heap (state_of (Queue_fork debug_at_fork
      (Forkspec [(''min'', Cont 1 True), (''lint'', Cont 2 True)])))
     = [Arr [Ref 1], Arr [Prim ''a.js''], Arr [Ref 1]] \<and>
   snapshots (added debug_at_fork (state_of (Queue_fork debug_at_fork
      (Forkspec [(''min'', Cont 1 True), (''lint'', Cont 2 True)])))) = [Ref 2, Ref 2] \<and>
   q_runner (self bare_at_fork) = Some bare_runner \<and>
   r_state bare_runner = Ref 2 \<and> at (heap bare_at_fork) 2 = Some (Obj False [Ref 1] None) \<and>
   heap (state_of (Queue_fork bare_at_fork
      (Forkspec [(''min'', Cont 1 True), (''lint'', Cont 2 True)]))) = heap bare_at_fork \<and>
   snapshots (added bare_at_fork (state_of (Queue_fork bare_at_fork
      (Forkspec [(''min'', Cont 1 True), (''lint'', Cont 2 True)])))) = [Ref 2, Ref 2] \<and>
   q_runner (self object_at_fork) = Some object_runner \<and>
   r_state object_runner = Ref 3 \<and> at (heap object_at_fork) 3 = Some (Obj True [] None) \<and>
   Queue_fork object_at_fork (Forkspec [(''min'', Cont 1 True), (''lint'', Cont 2 True)])
     = Raised TypeError object_at_fork"
proof -
  have a: "q_runner (self debug_at_fork) = Some nested_runner"
    by (simp add: debug_at_fork_def)
  have b: "q_runner (self bare_at_fork) = Some bare_runner"
    by (simp add: bare_at_fork_def)
  have c: "q_runner (self object_at_fork) = Some object_runner"
    by (simp add: object_at_fork_def)
  have hs: "heap debug_at_fork = [Arr [Ref 1], Arr [Prim ''a.js'']]"
    "heap bare_at_fork = [Arr [Ref 1], Arr [Prim ''a.js''], Obj False [Ref 1] None, Obj True [] None]"
    "heap object_at_fork = [Arr [Ref 1], Arr [Prim ''a.js''], Obj False [Ref 1] None, Obj True [] None]"
    by (simp_all add: object_at_fork_def bare_at_fork_def debug_at_fork_def debug_branch_def)
  show ?thesis
    using snapshot_is_shallow [OF a, of "[(''min'', Cont 1 True), (''lint'', Cont 2 True)]"]
      snapshot_is_shallow [OF b, of "[(''min'', Cont 1 True), (''lint'', Cont 2 True)]"]
      snapshot_is_shallow [OF c, of "[(''min'', Cont 1 True), (''lint'', Cont 2 True)]"]
      a b c
    by (simp add: hs at_def forked_def nested_runner_def bare_runner_def object_runner_def)
qed

text \<open>
  The claim as stated fails on a runner whose state is an array of arrays: the
  snapshot (address 2) holds the inner array (address 1) of the parent's state (address
  0), and both branches are handed the snapshot at address 2.
\<close>

theorem snapshot_is_shallow_counterexample:
  "r_state nested_runner = Ref 0 \<and>
   heap debug_branch = [Arr [Ref 1], Arr [Prim ''a.js'']] \<and>
   snapshots (trace (after debug_branch [CallRun (Some nested_runner), Complete 0 (Prim ''R1'')]))
     = [Ref 2, Ref 2] \<and>
   heap (after debug_branch [CallRun (Some nested_runner), Complete 0 (Prim ''R1'')])
     = [Arr [Ref 1], Arr [Prim ''a.js''], Arr [Ref 1]] \<and>
   shares (heap (after debug_branch [CallRun (Some nested_runner), Complete 0 (Prim ''R1'')]))
     (Ref 2) (Ref 0)"
  by (simp add: run_defs debug_branch_def nested_runner_def shares_def eval_nat_numeral)

subsection \<open>The cursor\<close>

text \<open>
  Claim C4, as the code has it. On a Queue with at least one task that is driven within
  the contract (one call of \<open>run\<close> with a runner, then signals on the promise of the task
  in flight only, no call of \<open>next\<close> or \<open>task\<close> from outside), the cursor stays within
  \<open>[0, tasks.length]\<close>, and it equals \<open>tasks.length\<close> exactly when \<open>queueComplete\<close> has been
  emitted.
\<close>

theorem cursor_in_range:
  assumes "ts \<noteq> []" and "lawful (start nm opts ts h g ks) is"
  shows "q_queuePosition (self (after (start nm opts ts h g ks) is))
           \<le> length (q_queue (self (after (start nm opts ts h g ks) is))) \<and>
         (q_queuePosition (self (after (start nm opts ts h g ks) is))
            = length (q_queue (self (after (start nm opts ts h g ks) is)))
          \<longleftrightarrow> 0 < completions (after (start nm opts ts h g ks) is))"
proof -
  have "queue_inv (after (start nm opts ts h g ks) is)"
    using queue_inv_after [OF queue_inv_start [OF assms(1)] assms(2)] .
  then show ?thesis by (auto simp: queue_inv_def)
qed

theorem cursor_in_range_witness:
  "q_queue (self build) \<noteq> [] \<and>
   lawful build [CallRun (Some plain_runner), Complete 0 (Prim ''R1''),
                 Complete 1 (Prim ''R2''), Complete 2 (Prim ''R3'')] \<and>
   lawful build [CallRun (Some plain_runner), Complete 0 (Prim ''R1''), Failed 1 (Prim ''E'')] \<and>
   q_queuePosition (self (after build [CallRun (Some plain_runner), Complete 0 (Prim ''R1''),
                 Complete 1 (Prim ''R2''), Complete 2 (Prim ''R3'')])) = 3 \<and>
   completions (after build [CallRun (Some plain_runner), Complete 0 (Prim ''R1''),
                 Complete 1 (Prim ''R2''), Complete 2 (Prim ''R3'')]) = 1 \<and>
   q_queuePosition (self (after build [CallRun (Some plain_runner), Complete 0 (Prim ''R1''),
                 Failed 1 (Prim ''E'')])) = 1 \<and>
   completions (after build [CallRun (Some plain_runner), Complete 0 (Prim ''R1''),
                 Failed 1 (Prim ''E'')]) = 0"
proof -
  let ?ts = "[TaskRecord ''files'' (Opaque (Prim ''*.js'')),
      TaskRecord ''concat'' (Opaque Undefined),
      TaskRecord ''write'' (Opaque (Prim ''out.js''))]"
  let ?ok = "[CallRun (Some plain_runner), Complete 0 (Prim ''R1''),
                 Complete 1 (Prim ''R2''), Complete 2 (Prim ''R3'')]"
  let ?ko = "[CallRun (Some plain_runner), Complete 0 (Prim ''R1''), Failed 1 (Prim ''E'')]"
  have ne: "?ts \<noteq> []" by simp
  have l1: "lawful (start ''build'' Undefined ?ts [] Undefined no_keys) ?ok"
    by (simp add: run_defs contract_def dispatched_def)
  have l2: "lawful (start ''build'' Undefined ?ts [] Undefined no_keys) ?ko"
    by (simp add: run_defs contract_def dispatched_def)
  show ?thesis
    using cursor_in_range [OF ne l1] cursor_in_range [OF ne l2]
    by (simp add: run_defs build_def completions_def contract_def dispatched_def)
qed

text \<open>
  The claim as stated fails twice. A new Queue without tasks has its cursor at
  \<open>tasks.length\<close> and has not completed. And nothing stops the cursor at the end: a
  runner that emits \<open>complete\<close> four times on the first promise of a queue of three tasks
  leaves the cursor at 4.
\<close>

theorem cursor_in_range_counterexample:
  "q_queuePosition (self (start ''build'' Undefined [] [] Undefined no_keys)) = 0 \<and>
   length (q_queue (self (start ''build'' Undefined [] [] Undefined no_keys))) = 0 \<and>
   completions (start ''build'' Undefined [] [] Undefined no_keys) = 0 \<and>
   q_queuePosition (self (after build [CallRun (Some plain_runner), Complete 0 (Prim ''R1''),
       Complete 0 (Prim ''R1''), Complete 0 (Prim ''R1''), Complete 0 (Prim ''R1'')])) = 4 \<and>
   length (q_queue (self (after build [CallRun (Some plain_runner), Complete 0 (Prim ''R1''),
       Complete 0 (Prim ''R1''), Complete 0 (Prim ''R1''), Complete 0 (Prim ''R1'')]))) = 3"
  by (simp add: run_defs build_def completions_def)

subsection \<open>Completion\<close>

text \<open>
  Claim C5, as the code has it. A call of \<open>next\<close> with the cursor at the end (or beyond)
  dispatches nothing; it moves the cursor one further and emits \<open>queueComplete\<close>, at every
  such call. On a Queue with at least one task that is driven within the contract,
  \<open>queueComplete\<close> is emitted at most once.
\<close>

theorem next_at_end:
  "(length (q_queue (self w)) \<le> q_queuePosition (self w) \<longrightarrow>
      Queue_next w =
        Returned (emit (w\<lparr>self := (self w)\<lparr>q_queuePosition := Suc (q_queuePosition (self w))\<rparr>\<rparr>)
                    (QueueComplete (q_name (self w)))) \<and>
      completions (state_of (Queue_next w)) = Suc (completions w)) \<and>
   (ts \<noteq> [] \<and> lawful (start nm opts ts h g ks) is \<longrightarrow>
      completions (after (start nm opts ts h g ks) is) \<le> 1)"
proof (intro conjI impI)
  assume "length (q_queue (self w)) \<le> q_queuePosition (self w)"
  then show n: "Queue_next w =
        Returned (emit (w\<lparr>self := (self w)\<lparr>q_queuePosition := Suc (q_queuePosition (self w))\<rparr>\<rparr>)
                    (QueueComplete (q_name (self w))))"
    by (simp add: Queue_next_def Let_def)
  show "completions (state_of (Queue_next w)) = Suc (completions w)"
    unfolding n by (simp add: emit_def completions_def)
next
  assume a: "ts \<noteq> [] \<and> lawful (start nm opts ts h g ks) is"
  have "queue_inv (after (start nm opts ts h g ks) is)"
    using queue_inv_after [OF queue_inv_start] a by blast
  then show "completions (after (start nm opts ts h g ks) is) \<le> 1"
    by (cases "q_queuePosition (self (after (start nm opts ts h g ks) is))
                = length (q_queue (self (after (start nm opts ts h g ks) is)))")
       (auto simp: queue_inv_def)
qed

theorem next_at_end_witness:
  "length (q_queue (self (after build [CallRun (Some plain_runner), Complete 0 (Prim ''R1''),
       Complete 1 (Prim ''R2''), Complete 2 (Prim ''R3'')])))
     \<le> q_queuePosition (self (after build [CallRun (Some plain_runner), Complete 0 (Prim ''R1''),
       Complete 1 (Prim ''R2''), Complete 2 (Prim ''R3'')])) \<and>
   completions (state_of (Queue_next (after build [CallRun (Some plain_runner),
       Complete 0 (Prim ''R1''), Complete 1 (Prim ''R2''), Complete 2 (Prim ''R3'')]))) = 2 \<and>
   q_queue (self build) \<noteq> [] \<and>
   lawful build [CallRun (Some plain_runner), Complete 0 (Prim ''R1''),
       Complete 1 (Prim ''R2''), Complete 2 (Prim ''R3'')] \<and>
   completions (after build [CallRun (Some plain_runner), Complete 0 (Prim ''R1''),
       Complete 1 (Prim ''R2''), Complete 2 (Prim ''R3'')]) \<le> 1"
  using next_at_end [of "after build [CallRun (Some plain_runner), Complete 0 (Prim ''R1''),
       Complete 1 (Prim ''R2''), Complete 2 (Prim ''R3'')]"
      "[TaskRecord ''files'' (Opaque (Prim ''*.js'')),
        TaskRecord ''concat'' (Opaque Undefined),
        TaskRecord ''write'' (Opaque (Prim ''out.js''))]"
      "''build''" Undefined "[]" Undefined no_keys
      "[CallRun (Some plain_runner), Complete 0 (Prim ''R1''),
       Complete 1 (Prim ''R2''), Complete 2 (Prim ''R3'')]"]
  by (simp add: run_defs build_def completions_def contract_def dispatched_def)

text \<open>
  The claim as stated fails on a completed queue of three tasks: one more call of \<open>next\<close>
  moves the cursor from 3 to 4 and emits \<open>queueComplete\<close> a second time.
\<close>

theorem next_at_end_counterexample:
  "q_queuePosition (self (after build [CallRun (Some plain_runner), Complete 0 (Prim ''R1''),
       Complete 1 (Prim ''R2''), Complete 2 (Prim ''R3'')])) = 3 \<and>
   length (q_queue (self (after build [CallRun (Some plain_runner), Complete 0 (Prim ''R1''),
       Complete 1 (Prim ''R2''), Complete 2 (Prim ''R3'')]))) = 3 \<and>
   completions (after build [CallRun (Some plain_runner), Complete 0 (Prim ''R1''),
       Complete 1 (Prim ''R2''), Complete 2 (Prim ''R3'')]) = 1 \<and>
   q_queuePosition (self (after build [CallRun (Some plain_runner), Complete 0 (Prim ''R1''),
       Complete 1 (Prim ''R2''), Complete 2 (Prim ''R3''), CallNext])) = 4 \<and>
   completions (after build [CallRun (Some plain_runner), Complete 0 (Prim ''R1''),
       Complete 1 (Prim ''R2''), Complete 2 (Prim ''R3''), CallNext]) = 2"
  by (simp add: run_defs build_def completions_def)

subsection \<open>A run in which every task succeeds\<close>

text \<open>
  Claim C1, as the code has it. Take a Queue with \<open>N\<close> appended tasks, \<open>N\<close> at least 1 and
  none of them a fork, call \<open>run\<close> once with a runner and answer every dispatch with a
  success signal. Then the trace is, task after task, \<open>taskStarted\<close>, the call of \<open>exec\<close>
  and \<open>taskComplete\<close>, followed by one \<open>queueComplete\<close>: \<open>N\<close> events \<open>taskStarted\<close>, \<open>N\<close>
  events \<open>taskComplete\<close> and one \<open>queueComplete\<close>, in task order. Before the signal of
  task \<open>j\<close> has arrived the trace ends with the dispatch of task \<open>j\<close>: the following task
  is not dispatched before.
\<close>

theorem all_succeed:
  assumes "ts \<noteq> []" and "\<forall>t \<in> set ts. ttype t \<noteq> ''fork''"
  shows
    "trace (after (start nm opts ts h g ks) (CallRun (Some r) # successes rs (length ts))) =
       concat (map (round_of nm ts rs) [0..<length ts]) @ [Emit (QueueComplete nm)] \<and>
     length (filter isTaskStarted
       (trace (after (start nm opts ts h g ks) (CallRun (Some r) # successes rs (length ts)))))
       = length ts \<and>
     length (filter isTaskComplete
       (trace (after (start nm opts ts h g ks) (CallRun (Some r) # successes rs (length ts)))))
       = length ts \<and>
     length (filter isQueueComplete
       (trace (after (start nm opts ts h g ks) (CallRun (Some r) # successes rs (length ts)))))
       = 1 \<and>
     (\<forall>j < length ts.
        trace (after (start nm opts ts h g ks) (CallRun (Some r) # successes rs j)) =
          concat (map (round_of nm ts rs) [0..<j]) @ dispatch_of nm ts j)"
proof -
  have tr: "trace (after (start nm opts ts h g ks) (CallRun (Some r) # successes rs (length ts))) =
       concat (map (round_of nm ts rs) [0..<length ts]) @ [Emit (QueueComplete nm)]"
    using finish [OF assms(2,1)] by blast
  have part: "trace (after (start nm opts ts h g ks) (CallRun (Some r) # successes rs j)) =
          concat (map (round_of nm ts rs) [0..<j]) @ dispatch_of nm ts j"
    if "j < length ts" for j
    using progress [OF assms(2) that, of nm opts h g ks r rs] by simp
  show ?thesis
    unfolding tr using part by (simp add: count_rounds)
qed

theorem all_succeed_witness:
  "map ttype (q_queue (self build)) = [''files'', ''concat'', ''write''] \<and>
   trace (after build (CallRun (Some plain_runner) # successes build_results 3)) =
     [Emit (TaskStarted ''build'' [] 0 ''files''),
      Exec ''files'' (Opaque (Prim ''*.js'')) 0,
      Emit (TaskComplete ''build'' (Some (TaskRecord ''files'' (Opaque (Prim ''*.js''))))
              (Prim ''R1'')),
      Emit (TaskStarted ''build'' [] 1 ''concat''),
      Exec ''concat'' (Opaque Undefined) 1,
      Emit (TaskComplete ''build'' (Some (TaskRecord ''concat'' (Opaque Undefined)))
              (Prim ''R2'')),
      Emit (TaskStarted ''build'' [] 2 ''write''),
      Exec ''write'' (Opaque (Prim ''out.js'')) 2,
      Emit (TaskComplete ''build'' (Some (TaskRecord ''write'' (Opaque (Prim ''out.js''))))
              (Prim ''R3'')),
      Emit (QueueComplete ''build'')]"
proof -
  let ?ts = "[TaskRecord ''files'' (Opaque (Prim ''*.js'')),
      TaskRecord ''concat'' (Opaque Undefined),
      TaskRecord ''write'' (Opaque (Prim ''out.js''))]"
  have a: "?ts \<noteq> []" by simp
  have b: "\<forall>t \<in> set ?ts. ttype t \<noteq> ''fork''" by simp
  show ?thesis
    using all_succeed [OF a b, of "''build''" Undefined "[]" Undefined no_keys plain_runner build_results]
    by (simp add: build_def start_def built_fields round_of_def dispatch_of_def
        build_results_def eval_nat_numeral)
qed

text \<open>
  The claim as stated fails on a Queue without tasks, where \<open>run\<close> throws and nothing is
  emitted, and on a queue of two tasks the second of which is a fork, which emits one
  \<open>taskStarted\<close> and no \<open>queueComplete\<close>.
\<close>

theorem all_succeed_counterexample:
  "q_queue (self (start ''build'' Undefined [] [] Undefined no_keys)) = [] \<and>
   raised (step (start ''build'' Undefined [] [] Undefined no_keys) (CallRun (Some plain_runner)))
     = Some TypeError \<and>
   trace (after (start ''build'' Undefined [] [] Undefined no_keys)
            (CallRun (Some plain_runner) # successes build_results 0)) = [] \<and>
   length (filter isQueueComplete (trace (after (start ''build'' Undefined [] [] Undefined no_keys)
            (CallRun (Some plain_runner) # successes build_results 0)))) \<noteq> 1 \<and>
   length (q_queue (self debug_branch)) = 2 \<and>
   length (filter isTaskStarted (trace (after debug_branch
            (CallRun (Some nested_runner) # successes build_results 2)))) = 1 \<and>
   length (filter isQueueComplete (trace (after debug_branch
            (CallRun (Some nested_runner) # successes build_results 2)))) = 0"
  by (simp add: run_defs successes_def debug_branch_def nested_runner_def build_results_def
      eval_nat_numeral)

end
